theory Spec2Isabelle
  imports Main "HOL-Library.Monad_Syntax"
begin

section \<open>Boyer-Moore string search: the program\<close>

text \<open>
  The model follows \<^verbatim>\<open>src/Boyer-Moore.cpp\<close>.  A \<^verbatim>\<open>std::string\<close> is a \<^typ>\<open>string\<close> (a list
  of 8-bit characters) of any length, a \<^verbatim>\<open>std::vector<int>\<close> is an \<^typ>\<open>int list\<close>.  A
  C++ \<^verbatim>\<open>int\<close> has 32 bits: it is an \<^typ>\<open>int\<close> between \<open>- 2^31\<close> and \<open>2^31 - 1\<close>, and
  the wrap-around is written out where a value can leave this range, which is where a
  length is stored in an \<^verbatim>\<open>int\<close> (\<^verbatim>\<open>int n = text.length()\<close>), in \<^verbatim>\<open>m + 1\<close> and in
  \<^verbatim>\<open>step++\<close>; an overflow of these two is taken to wrap around as on two's-complement
  hardware, so that \<^verbatim>\<open>m + 1\<close> is negative for \<open>m = 2^31 - 1\<close>.  The other arithmetic
  of the program is on values between \<open>- 1\<close> and a stored length plus one, where it
  cannot wrap.  Every subscript is checked: a read or a write outside the container has no
  defined outcome in C++ and is \<^term>\<open>None\<close> here, and so are a vector that cannot be
  created (the call throws) and a loop that never ends.
\<close>

subsection \<open>Machine integers\<close>

definition INT_MAX :: int where
  "INT_MAX = 2147483647"

text \<open>The value of an \<^verbatim>\<open>int\<close> expression whose exact result is \<open>x\<close>.\<close>

definition wrap32 :: "int \<Rightarrow> int" where
  "wrap32 x = (x + 2147483648) mod 4294967296 - 2147483648"

text \<open>The conversion of a length (a \<^verbatim>\<open>size_t\<close>) to \<^verbatim>\<open>int\<close>, as in \<^verbatim>\<open>int m = pattern.length()\<close>.\<close>

definition narrow :: "nat \<Rightarrow> int" where
  "narrow k = wrap32 (int k)"

subsection \<open>Constants, vectors and checked subscripts\<close>

text \<open>
  A vector of \<open>count\<close> copies of \<open>v\<close>, as made by \<^verbatim>\<open>assign(count, v)\<close> and by the
  constructor with a size, where \<open>count\<close> is an \<^verbatim>\<open>int\<close>: a negative \<open>count\<close> is converted to
  a size above every possible one and the call throws \<^verbatim>\<open>std::length_error\<close>.
\<close>

definition newVector :: "int \<Rightarrow> 'a \<Rightarrow> 'a list option" where
  "newVector count v = (if 0 \<le> count then Some (replicate (nat count) v) else None)"

definition NUM_CHARS :: int where
  "NUM_CHARS = 256"

definition rd :: "'a list \<Rightarrow> int \<Rightarrow> 'a option" where
  "rd xs i = (if 0 \<le> i \<and> i < int (length xs) then Some (xs ! nat i) else None)"

definition wr :: "'a list \<Rightarrow> int \<Rightarrow> 'a \<Rightarrow> 'a list option" where
  "wr xs i v = (if 0 \<le> i \<and> i < int (length xs) then Some (xs[nat i := v]) else None)"

text \<open>The cast \<^verbatim>\<open>(unsigned char)c\<close>.\<close>

definition uchar :: "char \<Rightarrow> int" where
  "uchar c = int (of_char c)"

subsection \<open>precomputeBadCharacterTable\<close>

function badCharLoop :: "string \<Rightarrow> int \<Rightarrow> int \<Rightarrow> int list \<Rightarrow> int list option" where
  "badCharLoop pattern patternLength i badCharTable =
     (if i < patternLength then
        do {
          c \<leftarrow> rd pattern i;
          badCharTable' \<leftarrow> wr badCharTable (uchar c) i;
          badCharLoop pattern patternLength (i + 1) badCharTable'
        }
      else Some badCharTable)"
  by pat_completeness auto
termination
  by (relation "measure (\<lambda>(pattern, patternLength, i, badCharTable). nat (patternLength - i))") auto

declare badCharLoop.simps [simp del]

definition precomputeBadCharacterTable :: "string \<Rightarrow> int list option" where
  "precomputeBadCharacterTable pattern =
     (let patternLength = narrow (length pattern)
      in do {
           badCharTable \<leftarrow> newVector NUM_CHARS (- 1);
           badCharLoop pattern patternLength 0 badCharTable
         })"

subsection \<open>precomputeGoodSuffixTable\<close>

text \<open>
  The statement \<^verbatim>\<open>if (goodSuffixShifts[k] == 0) goodSuffixShifts[k] = v;\<close> of both
  passes.  Next to the table it keeps the history \<open>ws\<close> of the assignments made to
  \<^verbatim>\<open>goodSuffixShifts\<close> after its initialisation, oldest first, as pairs of slot and
  value; the history is an observation of the run and is never read by the program.
\<close>

type_synonym writes = "(int \<times> int) list"

definition setIfZero :: "int list \<Rightarrow> writes \<Rightarrow> int \<Rightarrow> int \<Rightarrow> (int list \<times> writes) option" where
  "setIfZero goodSuffixShifts ws k v =
     do {
       g \<leftarrow> rd goodSuffixShifts k;
       if g = 0 then
         do {
           goodSuffixShifts' \<leftarrow> wr goodSuffixShifts k v;
           Some (goodSuffixShifts', ws @ [(k, v)])
         }
       else Some (goodSuffixShifts, ws)
     }"

text \<open>The inner loop (lines 88 to 96); it returns the final \<open>j\<close>, the table and the history.\<close>

partial_function (option) borderChain ::
  "string \<Rightarrow> int \<Rightarrow> int \<Rightarrow> int \<Rightarrow> int list \<Rightarrow> int list \<Rightarrow> writes \<Rightarrow> (int \<times> int list \<times> writes) option"
where
  [code]: "borderChain pattern m i j goodSuffixShifts borderPos ws =
     (if j \<le> m then
        do {
          a \<leftarrow> rd pattern (i - 1);
          b \<leftarrow> rd pattern (j - 1);
          if a \<noteq> b then
            do {
              (goodSuffixShifts', ws') \<leftarrow> setIfZero goodSuffixShifts ws j (j - i);
              j' \<leftarrow> rd borderPos j;
              borderChain pattern m i j' goodSuffixShifts' borderPos ws'
            }
          else Some (j, goodSuffixShifts, ws)
        }
      else Some (j, goodSuffixShifts, ws))"

text \<open>The outer loop (lines 84 to 102).\<close>

partial_function (option) borderPass ::
  "string \<Rightarrow> int \<Rightarrow> int \<Rightarrow> int \<Rightarrow> int list \<Rightarrow> int list \<Rightarrow> writes \<Rightarrow> (int list \<times> int list \<times> writes) option"
where
  [code]: "borderPass pattern m i j goodSuffixShifts borderPos ws =
     (if i > 0 then
        do {
          (j', goodSuffixShifts', ws') \<leftarrow> borderChain pattern m i j goodSuffixShifts borderPos ws;
          borderPos' \<leftarrow> wr borderPos (i - 1) (j' - 1);
          borderPass pattern m (i - 1) (j' - 1) goodSuffixShifts' borderPos' ws'
        }
      else Some (goodSuffixShifts, borderPos, ws))"

text \<open>The fill loop (lines 106 to 113).\<close>

partial_function (option) fillPass ::
  "int \<Rightarrow> int \<Rightarrow> int \<Rightarrow> int list \<Rightarrow> int list \<Rightarrow> writes \<Rightarrow> (int list \<times> writes) option"
where
  [code]: "fillPass m i j goodSuffixShifts borderPos ws =
     (if i \<le> m then
        do {
          (goodSuffixShifts', ws') \<leftarrow> setIfZero goodSuffixShifts ws i j;
          j' \<leftarrow> (if i = j then rd borderPos j else Some j);
          fillPass m (i + 1) j' goodSuffixShifts' borderPos ws'
        }
      else Some (goodSuffixShifts, ws))"

text \<open>The whole function, with the history of its assignments, and as the program returns it.\<close>

definition precomputeGoodSuffixTable_writes :: "string \<Rightarrow> (int list \<times> writes) option" where
  "precomputeGoodSuffixTable_writes pattern =
     (let m = narrow (length pattern)
      in do {
           goodSuffixShifts \<leftarrow> newVector (wrap32 (m + 1)) 0;
           borderPos \<leftarrow> newVector (wrap32 (m + 1)) 0;
           let i = m;
           let j = wrap32 (m + 1);
           borderPos1 \<leftarrow> wr borderPos i j;
           (goodSuffixShifts1, borderPos2, ws1) \<leftarrow>
             borderPass pattern m i j goodSuffixShifts borderPos1 [];
           j0 \<leftarrow> rd borderPos2 0;
           fillPass m 0 j0 goodSuffixShifts1 borderPos2 ws1
         })"

definition precomputeGoodSuffixTable :: "string \<Rightarrow> int list option" where
  "precomputeGoodSuffixTable pattern = map_option fst (precomputeGoodSuffixTable_writes pattern)"

subsection \<open>searchBoyerMoore\<close>

text \<open>
  What the function prints, one constructor for each output statement, with the values
  the statement prints: the line for the degenerate inputs (line 128),
  \<^verbatim>\<open>printAlignmentStep(step, shift)\<close> (line 151), the match found at \<open>shift\<close> (line 167),
  the shift after a match (line 172),
  \<^verbatim>\<open>printShiftDetails(badCharShift, goodSuffixShift, heuristic, finalShift)\<close> (line 196),
  \<^verbatim>\<open>printPatternAlignment\<close> at the new \<open>shift\<close> (line 202), the line for no match
  (line 206) and the summary of the matches and of the skipped characters (lines 210 to
  215).  The record holds the local variables of the function next to what it has printed.
\<close>

datatype event =
    EmptyOrLonger
  | AlignmentStep int int
  | PatternFound int
  | MatchShift int
  | ShiftDetails int int string int
  | PatternAlignment int
  | NotFound
  | Summary "int list" int

record search_state =
  shift :: int
  found :: bool
  totalSkippedChars :: int
  step :: int
  matchedIndex :: "int list"
  printed :: "event list"

text \<open>The right-to-left comparison (lines 156 to 162); it returns the final \<open>j\<close>.\<close>

function compareLoop :: "string \<Rightarrow> string \<Rightarrow> int \<Rightarrow> int \<Rightarrow> int option" where
  "compareLoop pattern text s j =
     (if j \<ge> 0 then
        do {
          a \<leftarrow> rd pattern j;
          b \<leftarrow> rd text (s + j);
          if a = b then compareLoop pattern text s (j - 1) else Some j
        }
      else Some j)"
  by pat_completeness auto
termination
  by (relation "measure (\<lambda>(pattern, text, s, j). nat (j + 1))") auto

declare compareLoop.simps [simp del]

text \<open>One iteration of the search loop (lines 151 to 202).\<close>

definition searchStep ::
  "string \<Rightarrow> string \<Rightarrow> int \<Rightarrow> int \<Rightarrow> int list \<Rightarrow> int list \<Rightarrow> search_state \<Rightarrow> search_state option"
where
  "searchStep text pattern n m badCharTable goodSuffixShifts st =
     do {
       let st1 = st\<lparr>printed := printed st @ [AlignmentStep (step st) (shift st)]\<rparr>;
       j \<leftarrow> compareLoop pattern text (shift st1) (m - 1);
       st2 \<leftarrow>
         (if j < 0 then
            do {
              let st2 = st1\<lparr>matchedIndex := matchedIndex st1 @ [shift st1],
                            printed := printed st1 @ [PatternFound (shift st1)]\<rparr>;
              finalShift \<leftarrow> rd goodSuffixShifts 0;
              let st3 = (if finalShift + shift st2 \<le> n - m
                         then st2\<lparr>printed := printed st2 @ [MatchShift finalShift]\<rparr> else st2);
              let st4 = st3\<lparr>shift := shift st3 + finalShift\<rparr>;
              let st5 = (if finalShift > 1 \<and> shift st4 \<le> n - m
                         then st4\<lparr>totalSkippedChars := totalSkippedChars st4 + (finalShift - 1)\<rparr>
                         else st4);
              Some (st5\<lparr>found := True, step := wrap32 (step st5 + 1)\<rparr>)
            }
          else
            do {
              c \<leftarrow> rd text (shift st1 + j);
              b \<leftarrow> rd badCharTable (uchar c);
              let badCharShift = max 1 (j - b);
              goodSuffixShift \<leftarrow> rd goodSuffixShifts (j + 1);
              let finalShift = max badCharShift goodSuffixShift;
              let heuristic = (if badCharShift \<ge> goodSuffixShift
                               then ''Bad Character'' else ''Good Suffix'');
              let st2 = st1\<lparr>printed := printed st1 @
                              [ShiftDetails badCharShift goodSuffixShift heuristic finalShift]\<rparr>;
              let st3 = st2\<lparr>shift := shift st2 + finalShift\<rparr>;
              let st4 = (if finalShift > 1 \<and> shift st3 \<le> n - m
                         then st3\<lparr>totalSkippedChars := totalSkippedChars st3 + (finalShift - 1)\<rparr>
                         else st3);
              Some (st4\<lparr>step := wrap32 (step st4 + 1)\<rparr>)
            });
       Some (if shift st2 \<le> n - m
             then st2\<lparr>printed := printed st2 @ [PatternAlignment (shift st2)]\<rparr> else st2)
     }"

text \<open>The search loop (line 150).\<close>

partial_function (option) searchLoop ::
  "string \<Rightarrow> string \<Rightarrow> int \<Rightarrow> int \<Rightarrow> int list \<Rightarrow> int list \<Rightarrow> search_state \<Rightarrow> search_state option"
where
  [code]: "searchLoop text pattern n m badCharTable goodSuffixShifts st =
     (if shift st \<le> n - m then
        do {
          st' \<leftarrow> searchStep text pattern n m badCharTable goodSuffixShifts st;
          searchLoop text pattern n m badCharTable goodSuffixShifts st'
        }
      else Some st)"

text \<open>
  The function itself.  On the degenerate inputs it prints one line and returns before any
  table is built and before the variables of the search are declared; the state returned
  for this case has them at their initial values and no match recorded.  Otherwise the
  state at the end of the function is returned, the summary printed.
\<close>

definition searchBoyerMoore :: "string \<Rightarrow> string \<Rightarrow> search_state option" where
  "searchBoyerMoore text pattern =
     (let n = narrow (length text);
          m = narrow (length pattern)
      in if m = 0 \<or> n < m then
           Some \<lparr>shift = 0, found = False, totalSkippedChars = 0, step = 1,
                 matchedIndex = [], printed = [EmptyOrLonger]\<rparr>
         else
           do {
             badCharTable \<leftarrow> precomputeBadCharacterTable pattern;
             goodSuffixShifts \<leftarrow> precomputeGoodSuffixTable pattern;
             st \<leftarrow> searchLoop text pattern n m badCharTable goodSuffixShifts
                    \<lparr>shift = 0, found = False, totalSkippedChars = 0, step = 1,
                     matchedIndex = [], printed = []\<rparr>;
             let st1 = (if \<not> found st then st\<lparr>printed := printed st @ [NotFound]\<rparr> else st);
             Some (st1\<lparr>printed := printed st1 @
                          [Summary (matchedIndex st1) (totalSkippedChars st1)]\<rparr>)
           })"

section \<open>Specification and invariants\<close>

text \<open>
  Positions are integers, as in the program, and \<open>p ! nat k\<close> is the symbol at position
  \<open>k\<close>.  The definitions of this section state what is to be proved and the invariants
  of the loops; none of them is part of the program.
\<close>

text \<open>What the table holds for a symbol once the indices below \<open>i\<close> are recorded.\<close>

definition lastBelow :: "string \<Rightarrow> int \<Rightarrow> char \<Rightarrow> int \<Rightarrow> bool" where
  "lastBelow p i c b \<longleftrightarrow>
     (b = - 1 \<and> (\<forall>x. 0 \<le> x \<and> x < i \<longrightarrow> p ! nat x \<noteq> c)) \<or>
     (0 \<le> b \<and> b < i \<and> p ! nat b = c \<and> (\<forall>x. b < x \<and> x < i \<longrightarrow> p ! nat x \<noteq> c))"

text \<open>
  The suffix of \<open>p\<close> that starts at \<open>j\<close> is a border of the suffix that starts at \<open>i\<close>:
  it is shorter and is also a prefix of it.  In other words, moving the pattern right by
  \<open>j - i\<close> keeps the symbols from \<open>j\<close> on.
\<close>

definition suffix_border :: "string \<Rightarrow> int \<Rightarrow> int \<Rightarrow> bool" where
  "suffix_border p i j \<longleftrightarrow>
     0 \<le> i \<and> i < j \<and> j \<le> int (length p) \<and>
     (\<forall>k. j \<le> k \<and> k < int (length p) \<longrightarrow> p ! nat (k - (j - i)) = p ! nat k)"

text \<open>
  What \<^verbatim>\<open>borderPos[i]\<close> holds: the start of the widest border of the suffix from \<open>i\<close>,
  and \<open>m + 1\<close> for the empty suffix, which has no border.
\<close>

definition least_suffix_border :: "string \<Rightarrow> int \<Rightarrow> int \<Rightarrow> bool" where
  "least_suffix_border p i j \<longleftrightarrow>
     (i = int (length p) \<and> j = int (length p) + 1) \<or>
     (suffix_border p i j \<and> (\<forall>j'. suffix_border p i j' \<longrightarrow> j \<le> j'))"

text \<open>
  The history of assignments against the table: no slot is assigned twice, every assignment
  stored a value other than zero that the slot still holds, and every slot that is not
  zero has been assigned.
\<close>

definition logInv :: "int list \<Rightarrow> writes \<Rightarrow> bool" where
  "logInv gs ws \<longleftrightarrow>
     distinct (map fst ws) \<and>
     (\<forall>k v. (k, v) \<in> set ws \<longrightarrow> 0 \<le> k \<and> k < int (length gs) \<and> gs ! nat k = v \<and> v \<noteq> 0) \<and>
     (\<forall>k. 0 \<le> k \<and> k < int (length gs) \<and> gs ! nat k \<noteq> 0 \<longrightarrow> k \<in> fst ` set ws)"

text \<open>
  While the border pass has handled the positions above \<open>i\<close>, a slot \<open>k\<close> that is set holds a
  shift \<open>k - i'\<close> for a position \<open>i' > i\<close>.
\<close>

definition gs_sound :: "int list \<Rightarrow> int \<Rightarrow> int \<Rightarrow> bool" where
  "gs_sound gs m i \<longleftrightarrow>
     int (length gs) = m + 1 \<and>
     (\<forall>k. 0 \<le> k \<and> k \<le> m \<longrightarrow> gs ! nat k = 0 \<or> (1 \<le> gs ! nat k \<and> gs ! nat k < k - i))"

text \<open>
  Every position \<open>i' > i\<close> at which the suffix from \<open>k\<close> occurs again, preceded by a
  different symbol, has been taken into account in slot \<open>k\<close>.
\<close>

definition gs_complete :: "string \<Rightarrow> int list \<Rightarrow> int \<Rightarrow> bool" where
  "gs_complete p gs i \<longleftrightarrow>
     (\<forall>i' k. i < i' \<and> suffix_border p i' k \<and> p ! nat (i' - 1) \<noteq> p ! nat (k - 1) \<longrightarrow>
        gs ! nat k \<noteq> 0 \<and> gs ! nat k \<le> k - i')"

text \<open>\<^verbatim>\<open>borderPos\<close> is filled in from position \<open>i\<close> on.\<close>

definition bp_ok :: "string \<Rightarrow> int list \<Rightarrow> int \<Rightarrow> bool" where
  "bp_ok p bp i \<longleftrightarrow>
     int (length bp) = int (length p) + 1 \<and>
     (\<forall>k. i \<le> k \<and> k \<le> int (length p) \<longrightarrow> least_suffix_border p k (bp ! nat k))"

text \<open>
  The invariant of the inner loop at \<open>j\<close>: the borders of the suffix from \<open>i\<close> that start
  before \<open>j\<close> cannot be extended to the left and their slots are set.
\<close>

definition chain_inv :: "string \<Rightarrow> int list \<Rightarrow> int \<Rightarrow> int \<Rightarrow> bool" where
  "chain_inv p gs i j \<longleftrightarrow>
     i < j \<and> (j = int (length p) + 1 \<or> suffix_border p i j) \<and>
     (\<forall>j'. suffix_border p i j' \<and> j' < j \<longrightarrow> p ! nat (i - 1) \<noteq> p ! nat (j' - 1) \<and> gs ! nat j' \<noteq> 0)"

text \<open>The invariant of the outer loop of the border pass.\<close>

definition pass1_inv :: "string \<Rightarrow> int list \<Rightarrow> int list \<Rightarrow> writes \<Rightarrow> int \<Rightarrow> bool" where
  "pass1_inv p gs bp ws i \<longleftrightarrow>
     bp_ok p bp i \<and> gs_sound gs (int (length p)) i \<and> gs_complete p gs i \<and> logInv gs ws"

text \<open>
  What the fill pass holds in \<open>j\<close> at index \<open>k\<close>: the least start, not before \<open>k\<close>, of a
  border of the whole pattern, and \<open>m + 1\<close> when there is none.
\<close>

definition border_from :: "string \<Rightarrow> int \<Rightarrow> int \<Rightarrow> bool" where
  "border_from p k j \<longleftrightarrow>
     k \<le> j \<and> j \<le> int (length p) + 1 \<and> (j \<le> int (length p) \<longrightarrow> suffix_border p 0 j) \<and>
     (\<forall>d. suffix_border p 0 d \<and> k \<le> d \<longrightarrow> j \<le> d)"

text \<open>
  The invariant of the fill pass at index \<open>i\<close>, against the table \<open>gs1\<close> left by the border
  pass: its slots that were set are kept, the others are filled in below \<open>i\<close>.
\<close>

definition fill_inv :: "string \<Rightarrow> int list \<Rightarrow> int list \<Rightarrow> int \<Rightarrow> bool" where
  "fill_inv p gs1 gs i \<longleftrightarrow>
     length gs = length gs1 \<and>
     (\<forall>k. 0 \<le> k \<and> k \<le> int (length p) \<longrightarrow>
        (if gs1 ! nat k \<noteq> 0 \<or> i \<le> k then gs ! nat k = gs1 ! nat k
         else border_from p k (gs ! nat k)))"

text \<open>
  Case 1 of the good-suffix rule: the suffix from \<open>k\<close> occurs again at \<open>i\<close>, preceded by a
  symbol other than the one before \<open>k\<close>.
\<close>

definition cand :: "string \<Rightarrow> int \<Rightarrow> int \<Rightarrow> bool" where
  "cand p i k \<longleftrightarrow> 1 \<le> i \<and> suffix_border p i k \<and> p ! nat (i - 1) \<noteq> p ! nat (k - 1)"

text \<open>
  The finished table: a slot holds either the least shift of case 1, or, when case 1 does
  not apply, the least shift that aligns a border of the whole pattern (case 2).
\<close>

definition table_ok :: "string \<Rightarrow> int list \<Rightarrow> bool" where
  "table_ok p gs \<longleftrightarrow>
     int (length gs) = int (length p) + 1 \<and>
     (\<forall>k. 0 \<le> k \<and> k \<le> int (length p) \<longrightarrow>
        (1 \<le> gs ! nat k \<and> gs ! nat k < k \<and> (\<forall>i. cand p i k \<longrightarrow> gs ! nat k \<le> k - i)) \<or>
        ((\<forall>i. \<not> cand p i k) \<and> border_from p k (gs ! nat k)))"

text \<open>A proper border of width \<open>w\<close>: a proper prefix that is also a suffix.\<close>

definition is_border :: "string \<Rightarrow> nat \<Rightarrow> bool" where
  "is_border p w \<longleftrightarrow> w < length p \<and> take w p = drop (length p - w) p"

text \<open>The width of the widest proper border; the empty border always exists.\<close>

definition widest_border :: "string \<Rightarrow> nat" where
  "widest_border p = Max (set (filter (is_border p) [0..<length p]))"

text \<open>A shift by \<open>d\<close> agrees with what a mismatch at \<open>k - 1\<close> (none when \<open>k = 0\<close>)
  after the match of the suffix from \<open>k\<close> tells about the text.\<close>

definition compat :: "string \<Rightarrow> int \<Rightarrow> int \<Rightarrow> bool" where
  "compat p k d \<longleftrightarrow>
     (\<forall>x. k \<le> x \<and> d \<le> x \<and> x < int (length p) \<longrightarrow> p ! nat (x - d) = p ! nat x) \<and>
     (1 \<le> k \<and> d \<le> k - 1 \<longrightarrow> p ! nat (k - 1 - d) \<noteq> p ! nat (k - 1))"

text \<open>
  The pattern occurs in the text at offset \<open>i\<close>: the slice \<open>text[i : i + m]\<close> is the
  pattern.
\<close>

definition occurs_at :: "string \<Rightarrow> string \<Rightarrow> int \<Rightarrow> bool" where
  "occurs_at text pattern i \<longleftrightarrow>
     0 \<le> i \<and> take (length pattern) (drop (nat i) text) = pattern"

text \<open>
  The reference scan compares symbol by symbol: \<open>matchesHere pattern rest\<close> holds when the
  pattern is a prefix of the rest of the text.  It tries every offset from \<open>0\<close> to
  \<open>n - m\<close> in ascending order and keeps those at which the pattern matches.
\<close>

fun matchesHere :: "string \<Rightarrow> string \<Rightarrow> bool" where
  "matchesHere [] rest = True"
| "matchesHere (c # cs) [] = False"
| "matchesHere (c # cs) (d # ds) = (c = d \<and> matchesHere cs ds)"

definition naiveSearch :: "string \<Rightarrow> string \<Rightarrow> int list" where
  "naiveSearch text pattern =
     filter (\<lambda>i. matchesHere pattern (drop (nat i) text))
       [0..int (length text) - int (length pattern)]"

fun alignmentOf :: "event \<Rightarrow> int list" where
  "alignmentOf (AlignmentStep k s) = [s]"
| "alignmentOf _ = []"

text \<open>The offsets at which the loop aligned the pattern, read off what it printed.\<close>

definition alignments :: "event list \<Rightarrow> int list" where
  "alignments evs = concat (map alignmentOf evs)"

text \<open>
  The invariant of the search loop: the matches recorded so far are the occurrences before
  the current alignment, and the alignments visited so far increase strictly.
\<close>

definition search_inv :: "string \<Rightarrow> string \<Rightarrow> search_state \<Rightarrow> bool" where
  "search_inv t p st \<longleftrightarrow>
     0 \<le> shift st \<and>
     matchedIndex st = filter (occurs_at t p) [0..shift st - 1] \<and>
     sorted_wrt (<) (alignments (printed st)) \<and>
     (\<forall>a \<in> set (alignments (printed st)).
        0 \<le> a \<and> a < shift st \<and> a \<le> int (length t) - int (length p)) \<and>
     step st = wrap32 (1 + int (length (alignments (printed st)))) \<and>
     (found st \<longleftrightarrow> matchedIndex st \<noteq> [])"

text \<open>Both tables are as the two preprocessing functions leave them.\<close>

definition tables_ok :: "string \<Rightarrow> int list \<Rightarrow> int list \<Rightarrow> bool" where
  "tables_ok p bct gs \<longleftrightarrow>
     length bct = 256 \<and> (\<forall>c. lastBelow p (int (length p)) c (bct ! nat (uchar c))) \<and>
     table_ok p gs"

text \<open>
  The greatest index at which a symbol occurs in the pattern, \<open>- 1\<close> if it does not occur.
\<close>

definition rightmost :: "string \<Rightarrow> char \<Rightarrow> int" where
  "rightmost p c =
     (if c \<in> set p then int (Max (set (filter (\<lambda>i. p ! i = c) [0..<length p]))) else - 1)"

text \<open>
  The bounds that hold in the two passes for every pattern, whether or not its length
  fits into an \<^verbatim>\<open>int\<close>; \<open>m\<close> is the length as the program has stored it.  The entries
  of \<^verbatim>\<open>borderPos\<close> from \<open>i\<close> on lie above their index and are at most \<open>m + 1\<close>.
\<close>

definition borderPos_bounds :: "int list \<Rightarrow> int \<Rightarrow> int \<Rightarrow> bool" where
  "borderPos_bounds bp m i \<longleftrightarrow>
     int (length bp) = m + 1 \<and>
     (\<forall>k. i \<le> k \<and> k \<le> m \<longrightarrow> k < bp ! nat k \<and> bp ! nat k \<le> m + 1)"

text \<open>No slot of the table is negative, and the slots below \<open>i\<close> are at least \<open>1\<close>.\<close>

definition shifts_bounds :: "int list \<Rightarrow> int \<Rightarrow> int \<Rightarrow> bool" where
  "shifts_bounds gs m i \<longleftrightarrow>
     int (length gs) = m + 1 \<and>
     (\<forall>k. 0 \<le> k \<and> k \<le> m \<longrightarrow> 0 \<le> gs ! nat k \<and> (k < i \<longrightarrow> 1 \<le> gs ! nat k))"

section \<open>Correctness of the tables and of the search\<close>

subsection \<open>The bad-character table\<close>

lemma rd_Some: "0 \<le> i \<Longrightarrow> i < int (length xs) \<Longrightarrow> rd xs i = Some (xs ! nat i)"
  by (simp add: rd_def)

lemma wr_Some: "0 \<le> i \<Longrightarrow> i < int (length xs) \<Longrightarrow> wr xs i v = Some (xs[nat i := v])"
  by (simp add: wr_def)

lemma wrap32_id: "- 2147483648 \<le> x \<Longrightarrow> x \<le> 2147483647 \<Longrightarrow> wrap32 x = x"
  unfolding wrap32_def by simp

lemma wrap32_range: "- 2147483648 \<le> wrap32 x \<and> wrap32 x \<le> 2147483647"
proof -
  have "0 \<le> (x + 2147483648) mod 4294967296" "(x + 2147483648) mod 4294967296 < 4294967296"
    by simp_all
  then show ?thesis unfolding wrap32_def by linarith
qed

lemma wrap32_add_left: "wrap32 (wrap32 x + y) = wrap32 (x + y)"
proof -
  have "(wrap32 x + y + 2147483648) mod 4294967296 =
        ((x + 2147483648) mod 4294967296 + y) mod 4294967296"
    unfolding wrap32_def by (simp add: algebra_simps)
  also have "\<dots> = (x + 2147483648 + y) mod 4294967296"
    by (rule mod_add_left_eq)
  finally show ?thesis unfolding wrap32_def by (simp add: algebra_simps)
qed

lemma narrow_id: "int k \<le> INT_MAX \<Longrightarrow> narrow k = int k"
  unfolding narrow_def INT_MAX_def by (rule wrap32_id) simp_all

lemma narrow_range: "- 2147483648 \<le> narrow k \<and> narrow k \<le> INT_MAX"
  unfolding narrow_def INT_MAX_def by (rule wrap32_range)

lemma narrow_le:
  assumes "0 \<le> narrow k"
  shows "narrow k \<le> int k"
proof -
  define q where "q = (int k + 2147483648) div 4294967296"
  have q: "int k + 2147483648 = 4294967296 * q + (int k + 2147483648) mod 4294967296"
    unfolding q_def by simp
  have "0 \<le> q" unfolding q_def by simp
  moreover have "narrow k = int k - 4294967296 * q"
    unfolding narrow_def wrap32_def using q by linarith
  ultimately show ?thesis by linarith
qed

lemma newVector_Some: "0 \<le> k \<Longrightarrow> newVector k v = Some (replicate (nat k) v)"
  by (simp add: newVector_def)

lemma uchar_range: "0 \<le> uchar c \<and> uchar c < 256"
proof -
  have "(of_char c :: nat) mod 256 = of_char c"
    by (rule of_char_mod_256)
  then have "(of_char c :: nat) < 256"
    by (metis mod_less_divisor zero_less_numeral)
  then show ?thesis
    by (simp add: uchar_def)
qed

lemma nat_uchar_less: "nat (uchar c) < 256"
  using uchar_range [of c] by linarith

lemma uchar_inj: "uchar c = uchar d \<longleftrightarrow> c = d"
  by (simp add: uchar_def)

lemma nat_uchar_inj: "nat (uchar c) = nat (uchar d) \<longleftrightarrow> c = d"
  by (simp add: uchar_def)

lemma lastBelow_step:
  assumes lb: "lastBelow p i c b" and i: "0 \<le> i"
  shows "lastBelow p (i + 1) c (if p ! nat i = c then i else b)"
proof (cases "p ! nat i = c")
  case True
  have "\<forall>x. i < x \<and> x < i + 1 \<longrightarrow> p ! nat x \<noteq> c"
    by (intro allI impI) linarith
  with True i have "lastBelow p (i + 1) c i"
    unfolding lastBelow_def by (intro disjI2 conjI) simp_all
  with True show ?thesis by simp
next
  case False
  have ext: "p ! nat x \<noteq> c" if "x < i + 1" "x < i \<Longrightarrow> p ! nat x \<noteq> c" for x
  proof (cases "x = i")
    case True with False show ?thesis by simp
  next
    case False with that show ?thesis by simp
  qed
  from lb have "lastBelow p (i + 1) c b"
    unfolding lastBelow_def
  proof (elim disjE conjE)
    assume b: "b = - 1" and a: "\<forall>x. 0 \<le> x \<and> x < i \<longrightarrow> p ! nat x \<noteq> c"
    have "\<forall>x. 0 \<le> x \<and> x < i + 1 \<longrightarrow> p ! nat x \<noteq> c"
      using a ext by blast
    with b show "b = - 1 \<and> (\<forall>x. 0 \<le> x \<and> x < i + 1 \<longrightarrow> p ! nat x \<noteq> c) \<or>
      0 \<le> b \<and> b < i + 1 \<and> p ! nat b = c \<and> (\<forall>x. b < x \<and> x < i + 1 \<longrightarrow> p ! nat x \<noteq> c)"
      by blast
  next
    assume b: "0 \<le> b" "b < i" "p ! nat b = c"
      and a: "\<forall>x. b < x \<and> x < i \<longrightarrow> p ! nat x \<noteq> c"
    have "\<forall>x. b < x \<and> x < i + 1 \<longrightarrow> p ! nat x \<noteq> c"
      using a ext by blast
    moreover have "b < i + 1" using b(2) by linarith
    ultimately show "b = - 1 \<and> (\<forall>x. 0 \<le> x \<and> x < i + 1 \<longrightarrow> p ! nat x \<noteq> c) \<or>
      0 \<le> b \<and> b < i + 1 \<and> p ! nat b = c \<and> (\<forall>x. b < x \<and> x < i + 1 \<longrightarrow> p ! nat x \<noteq> c)"
      using b by blast
  qed
  with False show ?thesis by simp
qed

lemma badCharLoop_spec:
  assumes "0 \<le> i" "i \<le> m" "m \<le> int (length p)" "length T = 256"
    and "\<forall>c. lastBelow p i c (T ! nat (uchar c))"
  shows "\<exists>T'. badCharLoop p m i T = Some T' \<and> length T' = 256 \<and>
           (\<forall>c. lastBelow p m c (T' ! nat (uchar c)))"
  using assms
proof (induction p m i T rule: badCharLoop.induct)
  case (1 p m i T)
  show ?case
  proof (cases "i < m")
    case False
    with "1.prems" have "i = m" by simp
    moreover have "badCharLoop p m i T = Some T"
      using False by (subst badCharLoop.simps) simp
    ultimately show ?thesis using "1.prems" by simp
  next
    case True
    let ?c = "p ! nat i"
    let ?T = "T[nat (uchar ?c) := i]"
    have r: "rd p i = Some ?c"
      using True "1.prems" by (simp add: rd_Some)
    have w: "wr T (uchar ?c) i = Some ?T"
      using uchar_range [of ?c] "1.prems" by (simp add: wr_Some)
    have inv: "\<forall>c. lastBelow p (i + 1) c (?T ! nat (uchar c))"
    proof
      fix c
      have "?T ! nat (uchar c) = (if ?c = c then i else T ! nat (uchar c))"
        using uchar_range [of c] uchar_range [of ?c] "1.prems"(4)
        by (auto simp add: nth_list_update nat_uchar_inj)
      then show "lastBelow p (i + 1) c (?T ! nat (uchar c))"
        using lastBelow_step [of p i c "T ! nat (uchar c)"] "1.prems" by simp
    qed
    have "\<exists>T'. badCharLoop p m (i + 1) ?T = Some T' \<and> length T' = 256 \<and>
            (\<forall>c. lastBelow p m c (T' ! nat (uchar c)))"
      using "1.IH" [OF True r w] True "1.prems" inv by simp
    then show ?thesis
      using True r w by (subst badCharLoop.simps) simp
  qed
qed

lemma badCharTable_init:
  "newVector NUM_CHARS (- 1 :: int) = Some (replicate 256 (- 1))"
  "\<forall>c. lastBelow p 0 c (replicate 256 (- 1) ! nat (uchar c))"
proof -
  show "newVector NUM_CHARS (- 1 :: int) = Some (replicate 256 (- 1))"
    by (simp add: newVector_def NUM_CHARS_def)
  have "replicate 256 (- 1 :: int) ! nat (uchar c) = - 1" for c
    using nat_uchar_less [of c] by (intro nth_replicate) simp
  then show "\<forall>c. lastBelow p 0 c (replicate 256 (- 1) ! nat (uchar c))"
    unfolding lastBelow_def by auto
qed

text \<open>For every pattern the table is built and has 256 entries.\<close>

lemma precomputeBadCharacterTable_total:
  "\<exists>T. precomputeBadCharacterTable p = Some T \<and> length T = 256"
proof (cases "0 \<le> narrow (length p)")
  case True
  from badCharLoop_spec [OF _ True narrow_le [OF True] _ badCharTable_init(2)]
  show ?thesis
    unfolding precomputeBadCharacterTable_def Let_def badCharTable_init(1) by auto
next
  case False
  then have "badCharLoop p (narrow (length p)) 0 (replicate 256 (- 1)) = Some (replicate 256 (- 1))"
    by (subst badCharLoop.simps) simp
  then show ?thesis
    unfolding precomputeBadCharacterTable_def Let_def badCharTable_init(1) by simp
qed

text \<open>For a pattern whose length fits into an \<^verbatim>\<open>int\<close> the table is as specified.\<close>

lemma precomputeBadCharacterTable_spec:
  assumes "int (length p) \<le> INT_MAX"
  shows "\<exists>T. precomputeBadCharacterTable p = Some T \<and> length T = 256 \<and>
           (\<forall>c. lastBelow p (int (length p)) c (T ! nat (uchar c)))"
proof -
  have n: "narrow (length p) = int (length p)"
    using assms by (rule narrow_id)
  from badCharLoop_spec [OF _ _ _ _ badCharTable_init(2), of "int (length p)" p]
  show ?thesis
    unfolding precomputeBadCharacterTable_def Let_def badCharTable_init(1) n by simp
qed

subsection \<open>Borders of the suffixes of the pattern\<close>

lemma suffix_borderI:
  assumes "0 \<le> i" "i < j" "j \<le> int (length p)"
    and "\<And>k. j \<le> k \<Longrightarrow> k < int (length p) \<Longrightarrow> p ! nat (k - (j - i)) = p ! nat k"
  shows "suffix_border p i j"
  using assms unfolding suffix_border_def by blast

lemma suffix_borderD:
  assumes "suffix_border p i j"
  shows "0 \<le> i" "i < j" "j \<le> int (length p)"
    and "\<And>k. j \<le> k \<Longrightarrow> k < int (length p) \<Longrightarrow> p ! nat (k - (j - i)) = p ! nat k"
  using assms unfolding suffix_border_def by blast+

lemma suffix_border_trans:
  assumes ij: "suffix_border p i j" and jk: "suffix_border p j k"
  shows "suffix_border p i k"
proof (rule suffix_borderI)
  show "0 \<le> i" "i < k" "k \<le> int (length p)"
    using suffix_borderD(1,2) [OF ij] suffix_borderD(2,3) [OF jk] by linarith+
next
  fix x assume x: "k \<le> x" "x < int (length p)"
  have a: "p ! nat (x - (k - j)) = p ! nat x"
    using suffix_borderD(4) [OF jk x] .
  have "j \<le> x - (k - j)" "x - (k - j) < int (length p)"
    using x suffix_borderD(2) [OF jk] by linarith+
  from suffix_borderD(4) [OF ij this] have "p ! nat (x - (k - j) - (j - i)) = p ! nat (x - (k - j))" .
  moreover have "x - (k - j) - (j - i) = x - (k - i)" by linarith
  ultimately show "p ! nat (x - (k - i)) = p ! nat x"
    using a by simp
qed

lemma suffix_border_between:
  assumes ij: "suffix_border p i j" and ik: "suffix_border p i k" and "j < k"
  shows "suffix_border p j k"
proof (rule suffix_borderI)
  show "0 \<le> j" "j < k" "k \<le> int (length p)"
    using suffix_borderD(1,2) [OF ij] suffix_borderD(3) [OF ik] \<open>j < k\<close> by linarith+
next
  fix x assume x: "k \<le> x" "x < int (length p)"
  have a: "p ! nat (x - (k - i)) = p ! nat x"
    using suffix_borderD(4) [OF ik x] .
  have "j \<le> x - (k - j)" "x - (k - j) < int (length p)"
    using x \<open>j < k\<close> by linarith+
  from suffix_borderD(4) [OF ij this] have "p ! nat (x - (k - j) - (j - i)) = p ! nat (x - (k - j))" .
  moreover have "x - (k - j) - (j - i) = x - (k - i)" by linarith
  ultimately show "p ! nat (x - (k - j)) = p ! nat x"
    using a by simp
qed

lemma suffix_border_last: "0 \<le> i \<Longrightarrow> i < int (length p) \<Longrightarrow> suffix_border p i (int (length p))"
  by (rule suffix_borderI) simp_all

lemma suffix_border_down:
  assumes ij: "suffix_border p i j" and "1 \<le> i" and eq: "p ! nat (i - 1) = p ! nat (j - 1)"
  shows "suffix_border p (i - 1) (j - 1)"
proof (rule suffix_borderI)
  show "0 \<le> i - 1" "i - 1 < j - 1" "j - 1 \<le> int (length p)"
    using suffix_borderD(2,3) [OF ij] \<open>1 \<le> i\<close> by linarith+
next
  fix x assume x: "j - 1 \<le> x" "x < int (length p)"
  have d: "x - (j - 1 - (i - 1)) = x - (j - i)" by linarith
  show "p ! nat (x - (j - 1 - (i - 1))) = p ! nat x"
  proof (cases "x = j - 1")
    case True
    then have e: "x - (j - 1 - (i - 1)) = i - 1" by linarith
    show ?thesis unfolding e using eq True by simp
  next
    case False
    with x have "j \<le> x" by linarith
    from suffix_borderD(4) [OF ij this x(2)] d show ?thesis by simp
  qed
qed

lemma suffix_border_up:
  assumes ij: "suffix_border p (i - 1) j" and "1 \<le> i" and "j < int (length p)"
  shows "suffix_border p i (j + 1)" and "p ! nat (i - 1) = p ! nat j"
proof -
  show "suffix_border p i (j + 1)"
  proof (rule suffix_borderI)
    show "0 \<le> i" "i < j + 1" "j + 1 \<le> int (length p)"
      using suffix_borderD(2) [OF ij] assms(2,3) by linarith+
  next
    fix x assume x: "j + 1 \<le> x" "x < int (length p)"
    then have "j \<le> x" by linarith
    from suffix_borderD(4) [OF ij this x(2)] have "p ! nat (x - (j - (i - 1))) = p ! nat x" .
    moreover have "x - (j - (i - 1)) = x - (j + 1 - i)" by linarith
    ultimately show "p ! nat (x - (j + 1 - i)) = p ! nat x" by simp
  qed
  have "p ! nat (j - (j - (i - 1))) = p ! nat j"
    using suffix_borderD(4) [OF ij, of j] assms(3) by simp
  moreover have "j - (j - (i - 1)) = i - 1" by linarith
  ultimately show "p ! nat (i - 1) = p ! nat j" by simp
qed

subsection \<open>Invariants of the border pass\<close>

lemma setIfZero_eq:
  assumes "0 \<le> k" "k < int (length gs)"
  shows "setIfZero gs ws k v =
           Some (if gs ! nat k = 0 then (gs[nat k := v], ws @ [(k, v)]) else (gs, ws))"
  using assms by (simp add: setIfZero_def rd_Some wr_Some)

lemma logInv_write:
  assumes inv: "logInv gs ws" and k: "0 \<le> k" "k < int (length gs)"
    and z: "gs ! nat k = 0" and v: "v \<noteq> 0"
  shows "logInv (gs[nat k := v]) (ws @ [(k, v)])"
proof -
  have fresh: "k \<notin> fst ` set ws"
  proof
    assume "k \<in> fst ` set ws"
    then obtain v' where "(k, v') \<in> set ws" by force
    with inv have "gs ! nat k = v' \<and> v' \<noteq> 0" unfolding logInv_def by blast
    with z show False by simp
  qed
  have d: "distinct (map fst (ws @ [(k, v)]))"
    using inv fresh unfolding logInv_def by simp
  have a: "0 \<le> k' \<and> k' < int (length (gs[nat k := v])) \<and> gs[nat k := v] ! nat k' = v' \<and> v' \<noteq> 0"
    if "(k', v') \<in> set (ws @ [(k, v)])" for k' v'
  proof (cases "(k', v') \<in> set ws")
    case True
    with inv have o: "0 \<le> k'" "k' < int (length gs)" "gs ! nat k' = v'" "v' \<noteq> 0"
      unfolding logInv_def by blast+
    from True fresh have "k' \<noteq> k" by force
    with o k have "nat k' \<noteq> nat k" by linarith
    with o show ?thesis by simp
  next
    case False
    with that have "k' = k" "v' = v" by auto
    with k v show ?thesis by simp
  qed
  have b: "k' \<in> fst ` set (ws @ [(k, v)])"
    if "0 \<le> k'" "k' < int (length (gs[nat k := v]))" "gs[nat k := v] ! nat k' \<noteq> 0" for k'
  proof (cases "k' = k")
    case True
    then show ?thesis by simp
  next
    case False
    with that k have "nat k' \<noteq> nat k" by linarith
    with that have "gs ! nat k' \<noteq> 0" by simp
    with inv that have "k' \<in> fst ` set ws" unfolding logInv_def by simp
    then show ?thesis by auto
  qed
  show ?thesis
    unfolding logInv_def using d a b by blast
qed

lemma gs_sound_weaken:
  assumes "gs_sound gs m i" "i' \<le> i"
  shows "gs_sound gs m i'"
  unfolding gs_sound_def
proof (intro conjI allI impI)
  show "int (length gs) = m + 1"
    using assms(1) unfolding gs_sound_def by simp
next
  fix k assume "0 \<le> k \<and> k \<le> m"
  with assms(1) have "gs ! nat k = 0 \<or> (1 \<le> gs ! nat k \<and> gs ! nat k < k - i)"
    unfolding gs_sound_def by blast
  with assms(2) show "gs ! nat k = 0 \<or> (1 \<le> gs ! nat k \<and> gs ! nat k < k - i')"
    by linarith
qed

subsection \<open>The inner loop of the border pass\<close>

lemma borderChain_spec:
  assumes m: "m = int (length p)" and i: "1 \<le> i" "i \<le> m"
    and bp: "bp_ok p bp i"
  shows "gs_sound gs m (i - 1) \<Longrightarrow> chain_inv p gs i j \<Longrightarrow> logInv gs ws \<Longrightarrow>
         \<exists>j2 gs2 ws2. borderChain p m i j gs bp ws = Some (j2, gs2, ws2) \<and>
           gs_sound gs2 m (i - 1) \<and> chain_inv p gs2 i j2 \<and>
           (j2 \<le> m \<longrightarrow> p ! nat (i - 1) = p ! nat (j2 - 1)) \<and>
           logInv gs2 ws2 \<and>
           (\<forall>k. 0 \<le> k \<and> k \<le> m \<and> gs ! nat k \<noteq> 0 \<longrightarrow> gs2 ! nat k = gs ! nat k)"
proof (induction "nat (m + 1 - j)" arbitrary: j gs ws rule: less_induct)
  case less
  note snd = less.prems(1) and ci = less.prems(2) and li = less.prems(3)
  have ij: "i < j" and jm: "j \<le> m + 1"
    using ci suffix_borderD(3) [of p i j] m unfolding chain_inv_def by auto
  have len: "int (length gs) = m + 1"
    using snd unfolding gs_sound_def by simp
  show ?case
  proof (cases "j \<le> m")
    case False
    then have "borderChain p m i j gs bp ws = Some (j, gs, ws)"
      by (subst borderChain.simps) simp
    with False snd ci li show ?thesis by simp
  next
    case True
    have r1: "rd p (i - 1) = Some (p ! nat (i - 1))"
      using i m by (simp add: rd_Some)
    have r2: "rd p (j - 1) = Some (p ! nat (j - 1))"
      using i ij True m by (simp add: rd_Some)
    show ?thesis
    proof (cases "p ! nat (i - 1) = p ! nat (j - 1)")
      case eq: True
      have "borderChain p m i j gs bp ws = Some (j, gs, ws)"
        using True r1 r2 eq by (subst borderChain.simps) simp
      with eq snd ci li show ?thesis by simp
    next
      case ne: False
      define gs' where "gs' = (if gs ! nat j = 0 then gs[nat j := j - i] else gs)"
      define ws' where "ws' = (if gs ! nat j = 0 then ws @ [(j, j - i)] else ws)"
      define j' where "j' = bp ! nat j"
      have jr: "0 \<le> j" "j < int (length gs)"
        using i ij True len by linarith+
      have s: "setIfZero gs ws j (j - i) = Some (gs', ws')"
        using setIfZero_eq [OF jr] by (simp add: gs'_def ws'_def)
      have r3: "rd bp j = Some j'"
        using bp jr(1) True m unfolding bp_ok_def j'_def by (simp add: rd_Some)
      have unf: "borderChain p m i j gs bp ws = borderChain p m i j' gs' bp ws'"
        using True r1 r2 ne s r3 by (subst borderChain.simps) simp
      have sbij: "suffix_border p i j"
        using ci True m unfolding chain_inv_def by auto
      have lj: "least_suffix_border p j j'"
        using bp ij True m unfolding bp_ok_def j'_def by simp
      have jj': "j < j'" and j'm: "j' \<le> m + 1"
        using lj suffix_borderD(2,3) [of p j j'] m unfolding least_suffix_border_def by auto
      have len': "int (length gs') = m + 1"
        using len by (simp add: gs'_def)
      have nth': "gs' ! nat k = (if k = j \<and> gs ! nat j = 0 then j - i else gs ! nat k)"
        if "0 \<le> k" "k \<le> m" for k
      proof (cases "k = j")
        case True
        then show ?thesis using jr by (simp add: gs'_def)
      next
        case False
        with that jr have "nat k \<noteq> nat j" by linarith
        then show ?thesis using False by (simp add: gs'_def)
      qed
      have mono': "\<forall>k. 0 \<le> k \<and> k \<le> m \<and> gs ! nat k \<noteq> 0 \<longrightarrow> gs' ! nat k = gs ! nat k"
        using nth' by simp
      have snd': "gs_sound gs' m (i - 1)"
        unfolding gs_sound_def
      proof (intro conjI allI impI)
        fix k assume k: "0 \<le> k \<and> k \<le> m"
        have o: "gs ! nat k = 0 \<or> (1 \<le> gs ! nat k \<and> gs ! nat k < k - (i - 1))"
          using snd k unfolding gs_sound_def by blast
        show "gs' ! nat k = 0 \<or> (1 \<le> gs' ! nat k \<and> gs' ! nat k < k - (i - 1))"
        proof (cases "k = j \<and> gs ! nat j = 0")
          case True
          then have "gs' ! nat k = j - i" using nth' k by simp
          with True ij show ?thesis by simp
        next
          case False
          then have "gs' ! nat k = gs ! nat k" using nth' k by auto
          with o show ?thesis by simp
        qed
      qed (use len' in simp)
      have nz: "gs' ! nat j \<noteq> 0"
        using nth' [of j] jr True ij by auto
      have ci': "chain_inv p gs' i j'"
        unfolding chain_inv_def
      proof (intro conjI allI impI)
        show "i < j'" using ij jj' by linarith
        show "j' = int (length p) + 1 \<or> suffix_border p i j'"
          using lj suffix_border_trans [OF sbij] m True unfolding least_suffix_border_def by auto
      next
        fix x assume x: "suffix_border p i x \<and> x < j'"
        then have xr: "0 \<le> x" "x \<le> m"
          using suffix_borderD(1,2,3) [of p i x] m by linarith+
        have "x \<le> j"
        proof (rule ccontr)
          assume "\<not> x \<le> j"
          then have "suffix_border p j x" using suffix_border_between [OF sbij] x by simp
          moreover from this have "j \<noteq> int (length p)" using suffix_borderD(2,3) [of p j x] by linarith
          ultimately have "j' \<le> x" using lj unfolding least_suffix_border_def by auto
          with x show False by simp
        qed
        show "p ! nat (i - 1) \<noteq> p ! nat (x - 1)"
        proof (cases "x = j")
          case True with ne show ?thesis by simp
        next
          case False
          with \<open>x \<le> j\<close> x ci show ?thesis unfolding chain_inv_def by simp
        qed
        show "gs' ! nat x \<noteq> 0"
        proof (cases "x = j")
          case True with nz show ?thesis by simp
        next
          case False
          with \<open>x \<le> j\<close> x ci have "gs ! nat x \<noteq> 0" unfolding chain_inv_def by simp
          with mono' xr show ?thesis by simp
        qed
      qed
      have li': "logInv gs' ws'"
      proof (cases "gs ! nat j = 0")
        case True
        have "j - i \<noteq> 0" using ij by simp
        from logInv_write [OF li jr True this] True show ?thesis
          by (simp add: gs'_def ws'_def)
      next
        case False
        with li show ?thesis by (simp add: gs'_def ws'_def)
      qed
      have "nat (m + 1 - j') < nat (m + 1 - j)"
        using jj' True by linarith
      from less.hyps [OF this snd' ci' li']
      obtain j2 gs2 ws2 where
        res: "borderChain p m i j' gs' bp ws' = Some (j2, gs2, ws2)"
        and post: "gs_sound gs2 m (i - 1)" "chain_inv p gs2 i j2"
          "j2 \<le> m \<longrightarrow> p ! nat (i - 1) = p ! nat (j2 - 1)" "logInv gs2 ws2"
        and mono2: "\<forall>k. 0 \<le> k \<and> k \<le> m \<and> gs' ! nat k \<noteq> 0 \<longrightarrow> gs2 ! nat k = gs' ! nat k"
        by blast
      have "\<forall>k. 0 \<le> k \<and> k \<le> m \<and> gs ! nat k \<noteq> 0 \<longrightarrow> gs2 ! nat k = gs ! nat k"
        using mono' mono2 by metis
      with unf res post show ?thesis by simp
    qed
  qed
qed

subsection \<open>The border pass\<close>

lemma least_suffix_border_chain_inv:
  assumes "least_suffix_border p i j" "0 \<le> i"
  shows "chain_inv p gs i j"
proof -
  have "i < j"
    using assms suffix_borderD(2) [of p i j] unfolding least_suffix_border_def by auto
  moreover have "j = int (length p) + 1 \<or> suffix_border p i j"
    using assms unfolding least_suffix_border_def by auto
  moreover have "\<not> (suffix_border p i j' \<and> j' < j)" for j'
  proof
    assume a: "suffix_border p i j' \<and> j' < j"
    then have "i \<noteq> int (length p)" using suffix_borderD(2,3) [of p i j'] by linarith
    with assms a have "j \<le> j'" unfolding least_suffix_border_def by auto
    with a show False by simp
  qed
  ultimately show ?thesis unfolding chain_inv_def by blast
qed

lemma chain_inv_least_sb:
  assumes ci: "chain_inv p gs i j" and i: "1 \<le> i" "i \<le> int (length p)"
    and eq: "j \<le> int (length p) \<longrightarrow> p ! nat (i - 1) = p ! nat (j - 1)"
  shows "least_suffix_border p (i - 1) (j - 1)"
proof -
  have ij: "i < j" and jm: "j = int (length p) + 1 \<or> suffix_border p i j"
    using ci unfolding chain_inv_def by auto
  have jle: "j \<le> int (length p) + 1"
    using jm suffix_borderD(3) [of p i j] by auto
  have s: "suffix_border p (i - 1) (j - 1)"
  proof (cases "j \<le> int (length p)")
    case True
    with jm have "suffix_border p i j" by auto
    from suffix_border_down [OF this i(1)] eq True show ?thesis by simp
  next
    case False
    with jle have "j - 1 = int (length p)" by linarith
    with suffix_border_last [of "i - 1" p] i show ?thesis by simp
  qed
  have "j - 1 \<le> j'" if a: "suffix_border p (i - 1) j'" for j'
  proof (cases "j' < int (length p)")
    case False
    with suffix_borderD(3) [OF a] jle show ?thesis by linarith
  next
    case True
    from suffix_border_up [OF a i(1) True] have u: "suffix_border p i (j' + 1)" "p ! nat (i - 1) = p ! nat j'" .
    show ?thesis
    proof (rule ccontr)
      assume "\<not> j - 1 \<le> j'"
      then have "j' + 1 < j" by linarith
      with u(1) ci have "p ! nat (i - 1) \<noteq> p ! nat (j' + 1 - 1)"
        unfolding chain_inv_def by blast
      with u(2) show False by simp
    qed
  qed
  with s show ?thesis unfolding least_suffix_border_def by blast
qed

lemma gs_complete_step:
  assumes gc: "gs_complete p gs i" and i: "1 \<le> i" "i \<le> int (length p)"
    and snd: "gs_sound gs2 (int (length p)) (i - 1)"
    and ci: "chain_inv p gs2 i j2"
    and eq: "j2 \<le> int (length p) \<longrightarrow> p ! nat (i - 1) = p ! nat (j2 - 1)"
    and mono: "\<forall>k. 0 \<le> k \<and> k \<le> int (length p) \<and> gs ! nat k \<noteq> 0 \<longrightarrow> gs2 ! nat k = gs ! nat k"
  shows "gs_complete p gs2 (i - 1)"
  unfolding gs_complete_def
proof (intro allI impI)
  fix i' k
  assume a: "i - 1 < i' \<and> suffix_border p i' k \<and> p ! nat (i' - 1) \<noteq> p ! nat (k - 1)"
  then have s: "suffix_border p i' k" and ne: "p ! nat (i' - 1) \<noteq> p ! nat (k - 1)" by auto
  have kr: "0 \<le> k" "k \<le> int (length p)"
    using suffix_borderD(1,2,3) [OF s] by linarith+
  have old: "gs2 ! nat k \<noteq> 0 \<and> gs2 ! nat k \<le> k - i''"
    if "i < i''" "suffix_border p i'' k" "p ! nat (i'' - 1) \<noteq> p ! nat (k - 1)" for i''
  proof -
    from gc that have "gs ! nat k \<noteq> 0 \<and> gs ! nat k \<le> k - i''"
      unfolding gs_complete_def by blast
    with mono kr show ?thesis by simp
  qed
  show "gs2 ! nat k \<noteq> 0 \<and> gs2 ! nat k \<le> k - i'"
  proof (cases "i < i'")
    case True
    from old [OF True s ne] show ?thesis .
  next
    case False
    with a have [simp]: "i' = i" by linarith
    have bound: "gs2 ! nat k = 0 \<or> (1 \<le> gs2 ! nat k \<and> gs2 ! nat k < k - (i - 1))"
      using snd kr unfolding gs_sound_def by blast
    show ?thesis
    proof (cases "k < j2")
      case True
      with s ci have "gs2 ! nat k \<noteq> 0" unfolding chain_inv_def by simp
      with bound show ?thesis by simp
    next
      case False
      with kr have j2m: "j2 \<le> int (length p)" by linarith
      with ci have sj: "suffix_border p i j2" unfolding chain_inv_def by auto
      from eq j2m ne have "k \<noteq> j2" by auto
      with False have lt: "j2 < k" by linarith
      have "suffix_border p j2 k" using suffix_border_between [OF sj _ lt] s by simp
      moreover have "i < j2" using suffix_borderD(2) [OF sj] .
      moreover have "p ! nat (j2 - 1) \<noteq> p ! nat (k - 1)" using eq j2m ne by simp
      ultimately have "gs2 ! nat k \<noteq> 0 \<and> gs2 ! nat k \<le> k - j2"
        using old by blast
      with \<open>i < j2\<close> show ?thesis by simp
    qed
  qed
qed

lemma bp_ok_update:
  assumes bp: "bp_ok p bp i" and i: "1 \<le> i" "i \<le> int (length p)"
    and l: "least_suffix_border p (i - 1) b"
  shows "bp_ok p (bp[nat (i - 1) := b]) (i - 1)"
  unfolding bp_ok_def
proof (intro conjI allI impI)
  show "int (length (bp[nat (i - 1) := b])) = int (length p) + 1"
    using bp unfolding bp_ok_def by simp
next
  fix k assume k: "i - 1 \<le> k \<and> k \<le> int (length p)"
  have len: "int (length bp) = int (length p) + 1"
    using bp unfolding bp_ok_def by simp
  show "least_suffix_border p k (bp[nat (i - 1) := b] ! nat k)"
  proof (cases "k = i - 1")
    case True
    with i len have "nat (i - 1) < length bp" by linarith
    with True l show ?thesis by simp
  next
    case False
    with k i have "nat k \<noteq> nat (i - 1)" "i \<le> k" by linarith+
    with bp k show ?thesis unfolding bp_ok_def by simp
  qed
qed

lemma borderPass_spec:
  assumes m: "m = int (length p)"
  shows "0 \<le> i \<Longrightarrow> i \<le> m \<Longrightarrow> least_suffix_border p i j \<Longrightarrow> pass1_inv p gs bp ws i \<Longrightarrow>
         \<exists>gs1 bp1 ws1. borderPass p m i j gs bp ws = Some (gs1, bp1, ws1) \<and>
           pass1_inv p gs1 bp1 ws1 0"
proof (induction "nat i" arbitrary: i j gs bp ws rule: less_induct)
  case less
  note i = less.prems(1,2) and lj = less.prems(3) and inv = less.prems(4)
  show ?case
  proof (cases "i > 0")
    case False
    with i have "i = 0" by simp
    then have "borderPass p m i j gs bp ws = Some (gs, bp, ws)"
      by (subst borderPass.simps) simp
    with inv \<open>i = 0\<close> show ?thesis by simp
  next
    case True
    then have i1: "1 \<le> i" by simp
    have bp: "bp_ok p bp i" and snd: "gs_sound gs m i" and gc: "gs_complete p gs i"
      and li: "logInv gs ws"
      using inv m unfolding pass1_inv_def by auto
    have snd': "gs_sound gs m (i - 1)"
      using gs_sound_weaken [OF snd] by simp
    have ci: "chain_inv p gs i j"
      using least_suffix_border_chain_inv [OF lj i(1)] .
    from borderChain_spec [OF m i1 i(2) bp snd' ci li]
    obtain j2 gs2 ws2 where
      res: "borderChain p m i j gs bp ws = Some (j2, gs2, ws2)"
      and snd2: "gs_sound gs2 m (i - 1)" and ci2: "chain_inv p gs2 i j2"
      and eq: "j2 \<le> m \<longrightarrow> p ! nat (i - 1) = p ! nat (j2 - 1)"
      and li2: "logInv gs2 ws2"
      and mono: "\<forall>k. 0 \<le> k \<and> k \<le> m \<and> gs ! nat k \<noteq> 0 \<longrightarrow> gs2 ! nat k = gs ! nat k"
      by blast
    define bp' where "bp' = bp[nat (i - 1) := j2 - 1]"
    have len: "int (length bp) = m + 1"
      using bp m unfolding bp_ok_def by simp
    have w: "wr bp (i - 1) (j2 - 1) = Some bp'"
      using i1 i(2) len by (simp add: wr_Some bp'_def)
    have lj': "least_suffix_border p (i - 1) (j2 - 1)"
      using chain_inv_least_sb [OF ci2 i1] i(2) eq m by simp
    have bp2: "bp_ok p bp' (i - 1)"
      unfolding bp'_def using bp_ok_update [OF bp i1 _ lj'] i(2) m by simp
    have gc2: "gs_complete p gs2 (i - 1)"
      using gs_complete_step [OF gc i1 _ _ ci2] i(2) snd2 eq mono m by simp
    have inv': "pass1_inv p gs2 bp' ws2 (i - 1)"
      unfolding pass1_inv_def using bp2 snd2 gc2 li2 m by simp
    have "nat (i - 1) < nat i" "0 \<le> i - 1" "i - 1 \<le> m"
      using i1 i(2) by linarith+
    from less.hyps [OF this lj' inv']
    obtain gs1 bp1 ws1 where
      "borderPass p m (i - 1) (j2 - 1) gs2 bp' ws2 = Some (gs1, bp1, ws1)"
      "pass1_inv p gs1 bp1 ws1 0"
      by blast
    moreover have "borderPass p m i j gs bp ws = borderPass p m (i - 1) (j2 - 1) gs2 bp' ws2"
      using True res w by (subst borderPass.simps) simp
    ultimately show ?thesis by simp
  qed
qed

subsection \<open>The fill pass\<close>

lemma border_from_pos:
  assumes "border_from p k j" "0 \<le> k"
  shows "1 \<le> j"
proof (cases "j \<le> int (length p)")
  case True
  with assms have "suffix_border p 0 j" unfolding border_from_def by simp
  from suffix_borderD(2) [OF this] show ?thesis by simp
next
  case False
  then show ?thesis by linarith
qed

lemma border_from_init:
  assumes "least_suffix_border p 0 j"
  shows "border_from p 0 j"
  using assms unfolding least_suffix_border_def
proof (elim disjE conjE)
  assume a: "0 = int (length p)" "j = int (length p) + 1"
  have "\<not> suffix_border p 0 d" for d
    using suffix_borderD(2,3) [of p 0 d] a(1) by linarith
  with a show ?thesis unfolding border_from_def by simp
next
  assume a: "suffix_border p 0 j" "\<forall>j'. suffix_border p 0 j' \<longrightarrow> j \<le> j'"
  then show ?thesis
    unfolding border_from_def using suffix_borderD(2,3) [OF a(1)] by auto
qed

lemma border_from_step:
  assumes bf: "border_from p i j" and i: "0 \<le> i" "i \<le> int (length p)"
    and bp: "bp_ok p bp 0"
  shows "border_from p (i + 1) (if i = j then bp ! nat j else j)"
proof (cases "i = j")
  case False
  with bf have "i + 1 \<le> j" unfolding border_from_def by linarith
  moreover have "\<forall>d. suffix_border p 0 d \<and> i + 1 \<le> d \<longrightarrow> j \<le> d"
  proof (intro allI impI)
    fix d assume "suffix_border p 0 d \<and> i + 1 \<le> d"
    then have "suffix_border p 0 d \<and> i \<le> d" by simp
    with bf show "j \<le> d" unfolding border_from_def by blast
  qed
  ultimately have "border_from p (i + 1) j"
    using bf unfolding border_from_def by blast
  with False show ?thesis by simp
next
  case True
  define b where "b = bp ! nat j"
  have s0: "suffix_border p 0 j"
    using bf i True unfolding border_from_def by simp
  have l: "least_suffix_border p j b"
    using bp i True unfolding bp_ok_def b_def by simp
  have jb: "j < b" "b \<le> int (length p) + 1"
    using l suffix_borderD(2,3) [of p j b] unfolding least_suffix_border_def by auto
  have "b \<le> int (length p) \<longrightarrow> suffix_border p 0 b"
    using l suffix_border_trans [OF s0] unfolding least_suffix_border_def by auto
  moreover have "\<forall>d. suffix_border p 0 d \<and> i + 1 \<le> d \<longrightarrow> b \<le> d"
  proof (intro allI impI)
    fix d assume d: "suffix_border p 0 d \<and> i + 1 \<le> d"
    with True have "j < d" by simp
    with d have jd: "suffix_border p j d" using suffix_border_between [OF s0] by simp
    then have "j \<noteq> int (length p)" using suffix_borderD(2,3) [OF jd] by linarith
    with l jd show "b \<le> d" unfolding least_suffix_border_def by auto
  qed
  ultimately have "border_from p (i + 1) b"
    using jb True unfolding border_from_def by simp
  with True show ?thesis by (simp add: b_def)
qed

lemma fill_inv_step:
  assumes fi: "fill_inv p gs1 gs i" and i: "0 \<le> i" "i \<le> int (length p)"
    and len: "int (length gs1) = int (length p) + 1"
    and bf: "border_from p i j"
  shows "fill_inv p gs1 (if gs ! nat i = 0 then gs[nat i := j] else gs) (i + 1)"
  unfolding fill_inv_def
proof (intro conjI allI impI)
  show "length (if gs ! nat i = 0 then gs[nat i := j] else gs) = length gs1"
    using fi unfolding fill_inv_def by simp
next
  fix k assume k: "0 \<le> k \<and> k \<le> int (length p)"
  let ?gs = "if gs ! nat i = 0 then gs[nat i := j] else gs"
  have leng: "length gs = length gs1"
    using fi unfolding fill_inv_def by simp
  have old: "if gs1 ! nat k \<noteq> 0 \<or> i \<le> k then gs ! nat k = gs1 ! nat k
             else border_from p k (gs ! nat k)"
    using fi k unfolding fill_inv_def by blast
  have gi: "gs ! nat i = gs1 ! nat i"
    using fi i unfolding fill_inv_def by simp
  show "if gs1 ! nat k \<noteq> 0 \<or> i + 1 \<le> k then ?gs ! nat k = gs1 ! nat k
        else border_from p k (?gs ! nat k)"
  proof (cases "k = i")
    case True
    have "nat i < length gs" using i len leng by linarith
    then have "?gs ! nat i = (if gs1 ! nat i = 0 then j else gs1 ! nat i)"
      using gi by simp
    with True bf show ?thesis by simp
  next
    case ne: False
    with k i have "nat k \<noteq> nat i" by linarith
    then have same: "?gs ! nat k = gs ! nat k" by simp
    show ?thesis
    proof (cases "gs1 ! nat k \<noteq> 0 \<or> i + 1 \<le> k")
      case True
      then have "gs1 ! nat k \<noteq> 0 \<or> i \<le> k" by linarith
      with old same True show ?thesis by simp
    next
      case False
      with ne have "\<not> (gs1 ! nat k \<noteq> 0 \<or> i \<le> k)" by linarith
      with old same False show ?thesis by simp
    qed
  qed
qed

lemma fillPass_spec:
  assumes m: "m = int (length p)" and bp: "bp_ok p bp 0"
    and len: "int (length gs1) = m + 1"
  shows "0 \<le> i \<Longrightarrow> i \<le> m + 1 \<Longrightarrow> border_from p i j \<Longrightarrow> fill_inv p gs1 gs i \<Longrightarrow>
         logInv gs ws \<Longrightarrow>
         \<exists>gs2 ws2. fillPass m i j gs bp ws = Some (gs2, ws2) \<and>
           fill_inv p gs1 gs2 (m + 1) \<and> logInv gs2 ws2"
proof (induction "nat (m + 1 - i)" arbitrary: i j gs ws rule: less_induct)
  case less
  note i = less.prems(1,2) and bf = less.prems(3) and fi = less.prems(4) and li = less.prems(5)
  show ?case
  proof (cases "i \<le> m")
    case False
    with i have "i = m + 1" by simp
    moreover have "fillPass m i j gs bp ws = Some (gs, ws)"
      using False by (subst fillPass.simps) simp
    ultimately show ?thesis using fi li by simp
  next
    case True
    define gs' where "gs' = (if gs ! nat i = 0 then gs[nat i := j] else gs)"
    define ws' where "ws' = (if gs ! nat i = 0 then ws @ [(i, j)] else ws)"
    define j' where "j' = (if i = j then bp ! nat j else j)"
    have leng: "int (length gs) = m + 1"
      using fi len unfolding fill_inv_def by simp
    have ir: "0 \<le> i" "i < int (length gs)"
      using i True leng by linarith+
    have s: "setIfZero gs ws i j = Some (gs', ws')"
      using setIfZero_eq [OF ir] by (simp add: gs'_def ws'_def)
    have lenb: "int (length bp) = m + 1"
      using bp m unfolding bp_ok_def by simp
    have r: "(if i = j then rd bp j else Some j) = Some j'"
      using i True lenb by (simp add: j'_def rd_Some)
    have unf: "fillPass m i j gs bp ws = fillPass m (i + 1) j' gs' bp ws'"
      using True s r by (subst fillPass.simps) simp
    have bf': "border_from p (i + 1) j'"
      unfolding j'_def using border_from_step [OF bf i(1) _ bp] True m by simp
    have fi': "fill_inv p gs1 gs' (i + 1)"
      unfolding gs'_def using fill_inv_step [OF fi i(1) _ _ bf] True len m by simp
    have li': "logInv gs' ws'"
    proof (cases "gs ! nat i = 0")
      case z: True
      have "j \<noteq> 0" using border_from_pos [OF bf i(1)] by simp
      from logInv_write [OF li ir z this] z show ?thesis
        by (simp add: gs'_def ws'_def)
    next
      case False
      with li show ?thesis by (simp add: gs'_def ws'_def)
    qed
    have "nat (m + 1 - (i + 1)) < nat (m + 1 - i)" "0 \<le> i + 1" "i + 1 \<le> m + 1"
      using True i by linarith+
    from less.hyps [OF this bf' fi' li'] unf show ?thesis by simp
  qed
qed

subsection \<open>The finished good-suffix table\<close>

lemma pass1_inv_init:
  fixes p :: string
  defines "m \<equiv> int (length p)"
  shows "pass1_inv p (replicate (nat (m + 1)) 0) ((replicate (nat (m + 1)) 0)[nat m := m + 1]) [] m"
proof -
  have z: "replicate (nat (m + 1)) (0::int) ! nat k = 0" if "0 \<le> k" "k \<le> m" for k
    using that by (intro nth_replicate) linarith
  have "least_suffix_border p m (m + 1)"
    unfolding least_suffix_border_def m_def by simp
  moreover have "nat m < length (replicate (nat (m + 1)) (0::int))"
    unfolding m_def by simp
  ultimately have 1: "bp_ok p ((replicate (nat (m + 1)) 0)[nat m := m + 1]) m"
    unfolding bp_ok_def m_def by auto
  have 2: "gs_sound (replicate (nat (m + 1)) 0) m m"
    unfolding gs_sound_def using z by (simp add: m_def)
  have "\<not> (m < i' \<and> suffix_border p i' k)" for i' k
    using suffix_borderD(2,3) [of p i' k] unfolding m_def by linarith
  then have 3: "gs_complete p (replicate (nat (m + 1)) 0) m"
    unfolding gs_complete_def by blast
  have 4: "logInv (replicate (nat (m + 1)) 0) []"
    unfolding logInv_def using z by (simp add: m_def)
  from 1 2 3 4 show ?thesis
    unfolding pass1_inv_def m_def by simp
qed

lemma table_ok_combine:
  assumes p1: "pass1_inv p gs1 bp1 ws1 0" and fi: "fill_inv p gs1 gs2 (int (length p) + 1)"
  shows "table_ok p gs2"
  unfolding table_ok_def
proof (intro conjI allI impI)
  have snd: "gs_sound gs1 (int (length p)) 0" and gc: "gs_complete p gs1 0"
    using p1 unfolding pass1_inv_def by auto
  show "int (length gs2) = int (length p) + 1"
    using snd fi unfolding gs_sound_def fill_inv_def by simp
  fix k assume k: "0 \<le> k \<and> k \<le> int (length p)"
  have c: "gs1 ! nat k \<noteq> 0 \<and> gs1 ! nat k \<le> k - i" if "cand p i k" for i
  proof -
    from that have "0 < i \<and> suffix_border p i k \<and> p ! nat (i - 1) \<noteq> p ! nat (k - 1)"
      unfolding cand_def by linarith
    with gc show ?thesis unfolding gs_complete_def by blast
  qed
  show "(1 \<le> gs2 ! nat k \<and> gs2 ! nat k < k \<and> (\<forall>i. cand p i k \<longrightarrow> gs2 ! nat k \<le> k - i)) \<or>
        ((\<forall>i. \<not> cand p i k) \<and> border_from p k (gs2 ! nat k))"
  proof (cases "gs1 ! nat k = 0")
    case True
    with c have "\<forall>i. \<not> cand p i k" by blast
    moreover have "border_from p k (gs2 ! nat k)"
      using fi k True unfolding fill_inv_def by simp
    ultimately show ?thesis by blast
  next
    case False
    then have e: "gs2 ! nat k = gs1 ! nat k"
      using fi k unfolding fill_inv_def by simp
    have "1 \<le> gs1 ! nat k \<and> gs1 ! nat k < k"
      using snd k False unfolding gs_sound_def by auto
    with e c show ?thesis by simp
  qed
qed

lemma precomputeGoodSuffixTable_writes_spec:
  assumes fit: "int (length p) < INT_MAX"
  shows "\<exists>gs ws. precomputeGoodSuffixTable_writes p = Some (gs, ws) \<and> table_ok p gs \<and>
           logInv gs ws"
proof -
  define m where "m = int (length p)"
  define gs0 where "gs0 = replicate (nat (m + 1)) (0::int)"
  define bp0 where "bp0 = replicate (nat (m + 1)) (0::int)"
  define bp where "bp = bp0[nat m := m + 1]"
  have nm: "narrow (length p) = m"
    unfolding m_def using fit by (intro narrow_id) simp
  have wm: "wrap32 (m + 1) = m + 1"
    using fit unfolding m_def INT_MAX_def by (intro wrap32_id) linarith+
  have v: "newVector (m + 1) (0::int) = Some gs0" "newVector (m + 1) (0::int) = Some bp0"
    unfolding gs0_def bp0_def m_def by (simp_all add: newVector_Some)
  have w: "wr bp0 m (m + 1) = Some bp"
    unfolding bp_def bp0_def m_def by (simp add: wr_Some)
  have inv: "pass1_inv p gs0 bp [] m"
    using pass1_inv_init [of p] unfolding gs0_def bp_def bp0_def m_def by simp
  have l: "least_suffix_border p m (m + 1)"
    unfolding least_suffix_border_def m_def by simp
  from borderPass_spec [OF m_def _ _ l inv]
  obtain gs1 bp1 ws1 where
    p1: "borderPass p m m (m + 1) gs0 bp [] = Some (gs1, bp1, ws1)"
    and inv1: "pass1_inv p gs1 bp1 ws1 0"
    unfolding m_def by auto
  have bp1: "bp_ok p bp1 0" and snd1: "gs_sound gs1 m 0" and li1: "logInv gs1 ws1"
    using inv1 unfolding pass1_inv_def m_def by auto
  define j0 where "j0 = bp1 ! 0"
  have r: "rd bp1 0 = Some j0"
    using bp1 unfolding bp_ok_def j0_def by (simp add: rd_Some)
  have "least_suffix_border p 0 (bp1 ! nat 0)"
    using bp1 unfolding bp_ok_def by (metis of_nat_0_le_iff order_refl)
  then have "least_suffix_border p 0 j0"
    unfolding j0_def by simp
  then have bf: "border_from p 0 j0"
    by (rule border_from_init)
  have len1: "int (length gs1) = m + 1"
    using snd1 unfolding gs_sound_def by simp
  have fi: "fill_inv p gs1 gs1 0"
    unfolding fill_inv_def by simp
  from fillPass_spec [OF m_def bp1 len1 _ _ bf fi li1]
  obtain gs2 ws2 where
    p2: "fillPass m 0 j0 gs1 bp1 ws1 = Some (gs2, ws2)"
    and fi2: "fill_inv p gs1 gs2 (m + 1)" and li2: "logInv gs2 ws2"
    unfolding m_def by auto
  have "table_ok p gs2"
    using table_ok_combine [OF inv1] fi2 unfolding m_def by simp
  moreover have "precomputeGoodSuffixTable_writes p = Some (gs2, ws2)"
    unfolding precomputeGoodSuffixTable_writes_def Let_def nm wm
    using v w p1 r p2 by simp
  ultimately show ?thesis using li2 by blast
qed

lemma precomputeGoodSuffixTable_spec:
  assumes "int (length p) < INT_MAX"
  shows "\<exists>gs. precomputeGoodSuffixTable p = Some gs \<and> table_ok p gs"
  using precomputeGoodSuffixTable_writes_spec [OF assms]
  unfolding precomputeGoodSuffixTable_def by auto

subsection \<open>What the table guarantees\<close>

lemma suffix_border_is_border:
  assumes d: "1 \<le> d" "d \<le> int (length p)"
  shows "suffix_border p 0 d \<longleftrightarrow> is_border p (nat (int (length p) - d))"
proof -
  define w where "w = nat (int (length p) - d)"
  define e where "e = nat d"
  have we: "w + e = length p" "1 \<le> e" "d = int e"
    using d unfolding w_def e_def by linarith+
  have lw: "length p - w = e" using we by linarith
  have "take w p = drop e p \<longleftrightarrow> (\<forall>x<w. p ! x = p ! (e + x))"
    using we by (auto simp add: list_eq_iff_nth_eq)
  also have "\<dots> \<longleftrightarrow> (\<forall>k. d \<le> k \<and> k < int (length p) \<longrightarrow> p ! nat (k - (d - 0)) = p ! nat k)"
  proof
    assume a: "\<forall>x<w. p ! x = p ! (e + x)"
    show "\<forall>k. d \<le> k \<and> k < int (length p) \<longrightarrow> p ! nat (k - (d - 0)) = p ! nat k"
    proof (intro allI impI)
      fix k assume k: "d \<le> k \<and> k < int (length p)"
      define x where "x = nat (k - d)"
      have "x < w" "nat (k - (d - 0)) = x" "nat k = e + x"
        using k we unfolding x_def by linarith+
      with a show "p ! nat (k - (d - 0)) = p ! nat k" by simp
    qed
  next
    assume a: "\<forall>k. d \<le> k \<and> k < int (length p) \<longrightarrow> p ! nat (k - (d - 0)) = p ! nat k"
    show "\<forall>x<w. p ! x = p ! (e + x)"
    proof (intro allI impI)
      fix x assume x: "x < w"
      define k where "k = int (e + x)"
      have "d \<le> k \<and> k < int (length p)" "nat (k - (d - 0)) = x" "nat k = e + x"
        using x we unfolding k_def by linarith+
      with a show "p ! x = p ! (e + x)" by metis
    qed
  qed
  finally have "take w p = drop e p \<longleftrightarrow>
      (\<forall>k. d \<le> k \<and> k < int (length p) \<longrightarrow> p ! nat (k - (d - 0)) = p ! nat k)" .
  moreover have "w < length p" using we by linarith
  ultimately show ?thesis
    unfolding suffix_border_def is_border_def w_def [symmetric] lw using d by auto
qed

lemma widest_border_eq:
  assumes s: "suffix_border p 0 d" and least: "\<forall>d'. suffix_border p 0 d' \<longrightarrow> d \<le> d'"
  shows "int (widest_border p) = int (length p) - d"
proof -
  have d: "1 \<le> d" "d \<le> int (length p)"
    using suffix_borderD(2,3) [OF s] by linarith+
  define w where "w = nat (int (length p) - d)"
  have b: "is_border p w"
    using s suffix_border_is_border [OF d] unfolding w_def by simp
  have "w' \<le> w" if "is_border p w'" for w'
  proof -
    have w': "w' < length p" using that unfolding is_border_def by simp
    define d' where "d' = int (length p) - int w'"
    have d': "1 \<le> d'" "d' \<le> int (length p)" "nat (int (length p) - d') = w'"
      using w' unfolding d'_def by linarith+
    with that suffix_border_is_border [OF d'(1,2)] have "suffix_border p 0 d'" by simp
    with least have "d \<le> d'" by blast
    then show ?thesis unfolding w_def d'_def by linarith
  qed
  moreover have "w < length p" using b unfolding is_border_def by simp
  ultimately have "Max (set (filter (is_border p) [0..<length p])) = w"
    using b by (intro Max_eqI) auto
  then show ?thesis
    unfolding widest_border_def w_def using d by simp
qed

lemma table_ok_range:
  assumes t: "table_ok p gs" and ne: "p \<noteq> []" and k: "0 \<le> k" "k \<le> int (length p)"
  shows "1 \<le> gs ! nat k \<and> gs ! nat k \<le> int (length p)"
proof -
  from t k consider
    (one) "1 \<le> gs ! nat k" "gs ! nat k < k" |
    (two) "border_from p k (gs ! nat k)"
    unfolding table_ok_def by blast
  then show ?thesis
  proof cases
    case one
    with k show ?thesis by linarith
  next
    case two
    have "suffix_border p 0 (int (length p))"
      using ne by (intro suffix_border_last) simp_all
    with two k have "gs ! nat k \<le> int (length p)"
      unfolding border_from_def by blast
    with border_from_pos [OF two k(1)] show ?thesis by simp
  qed
qed

lemma table_ok_slot0:
  assumes t: "table_ok p gs" and ne: "p \<noteq> []"
  shows "suffix_border p 0 (gs ! 0) \<and> (\<forall>d. suffix_border p 0 d \<longrightarrow> gs ! 0 \<le> d)"
proof -
  have "(1 \<le> gs ! nat 0 \<and> gs ! nat 0 < 0) \<or> border_from p 0 (gs ! nat 0)"
    using t unfolding table_ok_def by (metis of_nat_0_le_iff order_refl)
  then have bf: "border_from p 0 (gs ! 0)" by auto
  have "gs ! 0 \<le> int (length p)"
    using table_ok_range [OF t ne, of 0] by simp
  with bf have "suffix_border p 0 (gs ! 0)" unfolding border_from_def by blast
  moreover have "gs ! 0 \<le> d" if "suffix_border p 0 d" for d
    using bf that suffix_borderD(2) [OF that] unfolding border_from_def by auto
  ultimately show ?thesis by blast
qed

lemma table_ok_safe:
  assumes t: "table_ok p gs" and ne: "p \<noteq> []" and k: "0 \<le> k" "k \<le> int (length p)"
    and d: "1 \<le> d" and c: "compat p k d"
  shows "gs ! nat k \<le> d"
proof (cases "d \<le> int (length p)")
  case False
  with table_ok_range [OF t ne k] show ?thesis by linarith
next
  case dm: True
  show ?thesis
  proof (cases "d \<le> k - 1")
    case True
    have s: "suffix_border p (k - d) k"
    proof (rule suffix_borderI)
      show "0 \<le> k - d" "k - d < k" "k \<le> int (length p)"
        using True d k by linarith+
    next
      fix x assume x: "k \<le> x" "x < int (length p)"
      with True have "k \<le> x \<and> d \<le> x \<and> x < int (length p)" by linarith
      with c have "p ! nat (x - d) = p ! nat x" unfolding compat_def by blast
      moreover have "x - (k - (k - d)) = x - d" by linarith
      ultimately show "p ! nat (x - (k - (k - d))) = p ! nat x" by simp
    qed
    have "p ! nat (k - 1 - d) \<noteq> p ! nat (k - 1)"
      using c True d unfolding compat_def by linarith
    moreover have "k - d - 1 = k - 1 - d" by linarith
    ultimately have "p ! nat (k - d - 1) \<noteq> p ! nat (k - 1)"
      by metis
    moreover have "1 \<le> k - d" using True by linarith
    ultimately have cd: "cand p (k - d) k"
      unfolding cand_def using s by blast
    from t k consider
      (one) "\<forall>i. cand p i k \<longrightarrow> gs ! nat k \<le> k - i" |
      (two) "\<forall>i. \<not> cand p i k"
      unfolding table_ok_def by blast
    then show ?thesis
    proof cases
      case one
      with cd have "gs ! nat k \<le> k - (k - d)" by blast
      then show ?thesis by simp
    next
      case two
      with cd show ?thesis by blast
    qed
  next
    case False
    then have kd: "k \<le> d" by linarith
    have s: "suffix_border p 0 d"
    proof (rule suffix_borderI)
      show "0 \<le> (0::int)" "0 < d" "d \<le> int (length p)"
        using d dm by linarith+
    next
      fix x assume x: "d \<le> x" "x < int (length p)"
      with kd have "k \<le> x \<and> d \<le> x \<and> x < int (length p)" by linarith
      with c have "p ! nat (x - d) = p ! nat x" unfolding compat_def by blast
      then show "p ! nat (x - (d - 0)) = p ! nat x" by simp
    qed
    from t k consider
      (one) "gs ! nat k < k" |
      (two) "border_from p k (gs ! nat k)"
      unfolding table_ok_def by blast
    then show ?thesis
    proof cases
      case one
      with kd show ?thesis by linarith
    next
      case two
      with s kd show ?thesis unfolding border_from_def by blast
    qed
  qed
qed

subsection \<open>Occurrences and safe shifts\<close>

lemma matchesHere_iff: "matchesHere p t \<longleftrightarrow> take (length p) t = p"
  by (induction p t rule: matchesHere.induct) auto

lemma naiveSearch_occurs:
  "naiveSearch t p = filter (occurs_at t p) [0..int (length t) - int (length p)]"
  unfolding naiveSearch_def occurs_at_def
  by (intro filter_cong) (auto simp add: matchesHere_iff)

lemma occurs_at_iff:
  assumes ne: "p \<noteq> []"
  shows "occurs_at t p i \<longleftrightarrow>
     0 \<le> i \<and> i + int (length p) \<le> int (length t) \<and>
     (\<forall>x. 0 \<le> x \<and> x < int (length p) \<longrightarrow> t ! nat (i + x) = p ! nat x)"
proof (cases "0 \<le> i \<and> i + int (length p) \<le> int (length t)")
  case False
  have "take (length p) (drop (nat i) t) \<noteq> p" if "0 \<le> i"
  proof
    assume "take (length p) (drop (nat i) t) = p"
    then have "length (take (length p) (drop (nat i) t)) = length p" by simp
    then have "length p \<le> length t - nat i" by simp
    moreover have "0 < length p" using ne by simp
    ultimately have "nat i + length p \<le> length t" by arith
    with that False show False by linarith
  qed
  with False show ?thesis unfolding occurs_at_def by blast
next
  case True
  then have len: "length (take (length p) (drop (nat i) t)) = length p"
    by simp linarith
  have "nat i \<le> length t" using True by linarith
  then have nth: "take (length p) (drop (nat i) t) ! y = t ! (nat i + y)" if "y < length p" for y
    using that by simp
  have "take (length p) (drop (nat i) t) = p \<longleftrightarrow> (\<forall>y<length p. t ! (nat i + y) = p ! y)"
    using len nth by (simp add: list_eq_iff_nth_eq)
  also have "\<dots> \<longleftrightarrow> (\<forall>x. 0 \<le> x \<and> x < int (length p) \<longrightarrow> t ! nat (i + x) = p ! nat x)"
  proof
    assume a: "\<forall>y<length p. t ! (nat i + y) = p ! y"
    show "\<forall>x. 0 \<le> x \<and> x < int (length p) \<longrightarrow> t ! nat (i + x) = p ! nat x"
    proof (intro allI impI)
      fix x assume x: "0 \<le> x \<and> x < int (length p)"
      then have "nat x < length p" "nat (i + x) = nat i + nat x"
        using True by linarith+
      with a show "t ! nat (i + x) = p ! nat x" by simp
    qed
  next
    assume a: "\<forall>x. 0 \<le> x \<and> x < int (length p) \<longrightarrow> t ! nat (i + x) = p ! nat x"
    show "\<forall>y<length p. t ! (nat i + y) = p ! y"
    proof (intro allI impI)
      fix y assume y: "y < length p"
      then have "0 \<le> int y \<and> int y < int (length p)" "nat (i + int y) = nat i + y"
        using True by linarith+
      with a have "t ! (nat i + y) = p ! nat (int y)" by metis
      then show "t ! (nat i + y) = p ! y" by simp
    qed
  qed
  finally show ?thesis using True unfolding occurs_at_def by simp
qed

lemma occ_compat:
  assumes occ: "occurs_at t p (s + d)" and ne: "p \<noteq> []" and s: "0 \<le> s" and d: "1 \<le> d"
    and suf: "\<forall>x. k \<le> x \<and> x < int (length p) \<longrightarrow> p ! nat x = t ! nat (s + x)"
    and mis: "1 \<le> k \<longrightarrow> p ! nat (k - 1) \<noteq> t ! nat (s + (k - 1))"
    and k: "0 \<le> k" "k \<le> int (length p)"
  shows "compat p k d"
proof -
  have o: "t ! nat (s + y) = p ! nat (y - d)" if "d \<le> y" "y < int (length p) + d" for y
  proof -
    have "0 \<le> y - d \<and> y - d < int (length p)" using that by linarith
    with occ have "t ! nat (s + d + (y - d)) = p ! nat (y - d)"
      unfolding occurs_at_iff [OF ne] by blast
    moreover have "s + d + (y - d) = s + y" by linarith
    ultimately show ?thesis by metis
  qed
  have a: "p ! nat (x - d) = p ! nat x" if x: "k \<le> x \<and> d \<le> x \<and> x < int (length p)" for x
  proof -
    have "t ! nat (s + x) = p ! nat (x - d)"
      using o [of x] x d by simp
    with suf x show ?thesis by simp
  qed
  have b: "p ! nat (k - 1 - d) \<noteq> p ! nat (k - 1)" if x: "1 \<le> k \<and> d \<le> k - 1"
  proof -
    have "d \<le> k - 1" "k - 1 < int (length p) + d" using x k d by linarith+
    from o [OF this] have "t ! nat (s + (k - 1)) = p ! nat (k - 1 - d)" .
    with mis x show ?thesis by simp
  qed
  show ?thesis unfolding compat_def using a b by blast
qed

lemma bc_shift_safe:
  assumes lb: "lastBelow p (int (length p)) (t ! nat (s + j)) b" and ne: "p \<noteq> []"
    and s: "0 \<le> s" and j: "0 \<le> j" "j < int (length p)"
    and d: "1 \<le> d" "d < j - b"
  shows "\<not> occurs_at t p (s + d)"
proof
  assume occ: "occurs_at t p (s + d)"
  have b: "- 1 \<le> b" using lb unfolding lastBelow_def by auto
  with d have dj: "d \<le> j" by linarith
  have "0 \<le> j - d \<and> j - d < int (length p)" using dj j d by linarith
  with occ have "t ! nat (s + d + (j - d)) = p ! nat (j - d)"
    unfolding occurs_at_iff [OF ne] by blast
  moreover have "s + d + (j - d) = s + j" by linarith
  ultimately have e: "p ! nat (j - d) = t ! nat (s + j)" by metis
  have r: "0 \<le> j - d" "j - d < int (length p)" "b < j - d"
    using dj j d by linarith+
  from lb show False unfolding lastBelow_def
  proof (elim disjE conjE)
    assume "\<forall>x. 0 \<le> x \<and> x < int (length p) \<longrightarrow> p ! nat x \<noteq> t ! nat (s + j)"
    with r e show False by blast
  next
    assume "\<forall>x. b < x \<and> x < int (length p) \<longrightarrow> p ! nat x \<noteq> t ! nat (s + j)"
    with r e show False by blast
  qed
qed

lemma compareLoop_spec:
  assumes "m = int (length p)" and "0 \<le> s" "s + m \<le> int (length t)"
    and "- 1 \<le> j" "j < m"
    and "\<forall>x. j < x \<and> x < m \<longrightarrow> p ! nat x = t ! nat (s + x)"
  shows "\<exists>j'. compareLoop p t s j = Some j' \<and> - 1 \<le> j' \<and> j' < m \<and>
           (\<forall>x. j' < x \<and> x < m \<longrightarrow> p ! nat x = t ! nat (s + x)) \<and>
           (0 \<le> j' \<longrightarrow> p ! nat j' \<noteq> t ! nat (s + j'))"
  using assms
proof (induction p t s j rule: compareLoop.induct)
  case (1 p t s j)
  note m = "1.prems"(1) and s = "1.prems"(2,3) and j = "1.prems"(4,5) and suf = "1.prems"(6)
  show ?case
  proof (cases "j \<ge> 0")
    case False
    with j have "j = - 1" by linarith
    then have "compareLoop p t s j = Some j" by (subst compareLoop.simps) simp
    with j suf False show ?thesis by simp
  next
    case True
    have r1: "rd p j = Some (p ! nat j)"
      using True j m by (simp add: rd_Some)
    have r2: "rd t (s + j) = Some (t ! nat (s + j))"
      using True j s by (simp add: rd_Some)
    show ?thesis
    proof (cases "p ! nat j = t ! nat (s + j)")
      case ne: False
      have "compareLoop p t s j = Some j"
        using True r1 r2 ne by (subst compareLoop.simps) simp
      with j suf ne show ?thesis by simp
    next
      case eq: True
      have suf': "\<forall>x. j - 1 < x \<and> x < m \<longrightarrow> p ! nat x = t ! nat (s + x)"
      proof (intro allI impI)
        fix x assume x: "j - 1 < x \<and> x < m"
        show "p ! nat x = t ! nat (s + x)"
        proof (cases "x = j")
          case True with eq show ?thesis by simp
        next
          case False
          with x have "j < x \<and> x < m" by linarith
          with suf show ?thesis by blast
        qed
      qed
      have "- 1 \<le> j - 1" "j - 1 < m" using True j by linarith+
      from "1.IH" [OF True r1 r2 eq m s this suf']
      have "\<exists>j'. compareLoop p t s (j - 1) = Some j' \<and> - 1 \<le> j' \<and> j' < m \<and>
           (\<forall>x. j' < x \<and> x < m \<longrightarrow> p ! nat x = t ! nat (s + x)) \<and>
           (0 \<le> j' \<longrightarrow> p ! nat j' \<noteq> t ! nat (s + j'))" .
      moreover have "compareLoop p t s j = compareLoop p t s (j - 1)"
        using True r1 r2 eq by (subst compareLoop.simps) simp
      ultimately show ?thesis by simp
    qed
  qed
qed

subsection \<open>One iteration of the search loop\<close>

lemma alignments_append: "alignments (xs @ ys) = alignments xs @ alignments ys"
  by (simp add: alignments_def)

lemma searchStep_match:
  assumes "compareLoop p t (shift st) (m - 1) = Some j" "j < 0" "rd gs 0 = Some f"
  shows "\<exists>st'. searchStep t p n m bct gs st = Some st' \<and>
           shift st' = shift st + f \<and>
           matchedIndex st' = matchedIndex st @ [shift st] \<and>
           found st' \<and> step st' = wrap32 (step st + 1) \<and>
           totalSkippedChars st' = totalSkippedChars st +
             (if f > 1 \<and> shift st + f \<le> n - m then f - 1 else 0) \<and>
           printed st' = printed st @
             [AlignmentStep (step st) (shift st), PatternFound (shift st)] @
             (if f + shift st \<le> n - m then [MatchShift f] else []) @
             (if shift st + f \<le> n - m then [PatternAlignment (shift st + f)] else [])"
  using assms unfolding searchStep_def by (simp add: Let_def add.commute)

lemma searchStep_mismatch:
  assumes "compareLoop p t (shift st) (m - 1) = Some j" "0 \<le> j"
    and "rd t (shift st + j) = Some c" "rd bct (uchar c) = Some b" "rd gs (j + 1) = Some g"
    and "max 1 (j - b) = bc" "max bc g = fin"
  shows "\<exists>st'. searchStep t p n m bct gs st = Some st' \<and>
           shift st' = shift st + fin \<and>
           matchedIndex st' = matchedIndex st \<and>
           found st' = found st \<and> step st' = wrap32 (step st + 1) \<and>
           totalSkippedChars st' = totalSkippedChars st +
             (if fin > 1 \<and> shift st + fin \<le> n - m then fin - 1 else 0) \<and>
           printed st' = printed st @
             [AlignmentStep (step st) (shift st),
              ShiftDetails bc g (if bc \<ge> g then ''Bad Character'' else ''Good Suffix'') fin] @
             (if shift st + fin \<le> n - m then [PatternAlignment (shift st + fin)] else [])"
  using assms unfolding searchStep_def by (simp add: Let_def)

subsection \<open>The invariant of the search loop\<close>

lemma filter_upto_empty:
  assumes "\<forall>x. a \<le> x \<and> x \<le> b \<longrightarrow> \<not> P x"
  shows "filter P [a..b] = []"
  using assms by (simp add: filter_empty_conv)

lemma filter_upto_step:
  assumes s: "0 \<le> s" "s < s'"
    and none: "\<forall>x. s < x \<and> x < s' \<longrightarrow> \<not> P x"
  shows "filter P [0..s' - 1] = filter P [0..s - 1] @ (if P s then [s] else [])"
proof -
  have "[0..s' - 1] = [0..s - 1] @ [s..s' - 1]"
    using s by (intro upto_split1) linarith+
  moreover have "[s..s' - 1] = s # [s + 1..s' - 1]"
    using s by (intro upto_rec1) linarith
  moreover have "filter P [s + 1..s' - 1] = []"
    using none by (intro filter_upto_empty) simp
  ultimately show ?thesis by simp
qed

lemma search_inv_step:
  assumes inv: "search_inv t p st" and le: "shift st \<le> int (length t) - int (length p)"
    and lt: "shift st < shift st'"
    and mi: "matchedIndex st' = matchedIndex st @ (if occurs_at t p (shift st) then [shift st] else [])"
    and none: "\<forall>x. shift st < x \<and> x < shift st' \<longrightarrow> \<not> occurs_at t p x"
    and al: "alignments (printed st') = alignments (printed st) @ [shift st]"
    and stp: "step st' = wrap32 (step st + 1)"
    and fo: "found st' \<longleftrightarrow> found st \<or> occurs_at t p (shift st)"
  shows "search_inv t p st'"
proof -
  have s0: "0 \<le> shift st"
    and m0: "matchedIndex st = filter (occurs_at t p) [0..shift st - 1]"
    and so: "sorted_wrt (<) (alignments (printed st))"
    and bd: "\<forall>a \<in> set (alignments (printed st)).
        0 \<le> a \<and> a < shift st \<and> a \<le> int (length t) - int (length p)"
    and st0: "step st = wrap32 (1 + int (length (alignments (printed st))))"
    and f0: "found st \<longleftrightarrow> matchedIndex st \<noteq> []"
    using inv unfolding search_inv_def by blast+
  have 1: "0 \<le> shift st'" using s0 lt by linarith
  have 2: "matchedIndex st' = filter (occurs_at t p) [0..shift st' - 1]"
    using filter_upto_step [OF s0 lt none] mi m0 by simp
  have 3: "sorted_wrt (<) (alignments (printed st'))"
    unfolding al using so bd by (simp add: sorted_wrt_append)
  have 4: "\<forall>a \<in> set (alignments (printed st')).
        0 \<le> a \<and> a < shift st' \<and> a \<le> int (length t) - int (length p)"
  proof
    fix a assume "a \<in> set (alignments (printed st'))"
    then have "a \<in> set (alignments (printed st)) \<or> a = shift st"
      unfolding al by auto
    then show "0 \<le> a \<and> a < shift st' \<and> a \<le> int (length t) - int (length p)"
    proof
      assume "a \<in> set (alignments (printed st))"
      with bd have "0 \<le> a \<and> a < shift st \<and> a \<le> int (length t) - int (length p)" by blast
      with lt show ?thesis by linarith
    next
      assume "a = shift st"
      with s0 lt le show ?thesis by simp
    qed
  qed
  have 5: "step st' = wrap32 (1 + int (length (alignments (printed st'))))"
    unfolding al stp st0 wrap32_add_left by (simp add: algebra_simps)
  have 6: "found st' \<longleftrightarrow> matchedIndex st' \<noteq> []"
    unfolding fo mi f0 by simp
  from 1 2 3 4 5 6 show ?thesis unfolding search_inv_def by blast
qed

lemma searchStep_spec:
  assumes n: "n = int (length t)" and m: "m = int (length p)" and ne: "p \<noteq> []"
    and tb: "tables_ok p bct gs"
    and inv: "search_inv t p st" and le: "shift st \<le> n - m"
  shows "\<exists>st'. searchStep t p n m bct gs st = Some st' \<and> search_inv t p st' \<and>
           shift st < shift st'"
proof -
  define s where "s = shift st"
  have s0: "0 \<le> s" using inv unfolding search_inv_def s_def by simp
  have sm: "s + m \<le> int (length t)" using le n unfolding s_def by linarith
  have m1: "1 \<le> m" using ne m by (cases p) simp_all
  have tok: "table_ok p gs" and lb: "\<And>c. lastBelow p (int (length p)) c (bct ! nat (uchar c))"
    and lbct: "length bct = 256"
    using tb unfolding tables_ok_def by auto
  have lgs: "int (length gs) = m + 1"
    using tok m unfolding table_ok_def by simp
  have "\<forall>x. m - 1 < x \<and> x < m \<longrightarrow> p ! nat x = t ! nat (s + x)"
    by (intro allI impI) linarith
  from compareLoop_spec [OF m s0 sm _ _ this]
  obtain j where
    cl: "compareLoop p t s (m - 1) = Some j" and j: "- 1 \<le> j" "j < m"
    and suf: "\<forall>x. j < x \<and> x < m \<longrightarrow> p ! nat x = t ! nat (s + x)"
    and mis: "0 \<le> j \<longrightarrow> p ! nat j \<noteq> t ! nat (s + j)"
    using m1 by auto
  show ?thesis
  proof (cases "j < 0")
    case True
    define f where "f = gs ! nat 0"
    have r: "rd gs 0 = Some f"
      using lgs m1 by (simp add: rd_Some f_def)
    have f1: "1 \<le> f"
      using table_ok_range [OF tok ne, of 0] unfolding f_def by simp
    from searchStep_match [OF cl [unfolded s_def] True r, where n = n and bct = bct]
    obtain st' where
      ss: "searchStep t p n m bct gs st = Some st'"
      and sh: "shift st' = shift st + f"
      and mi: "matchedIndex st' = matchedIndex st @ [shift st]"
      and fo: "found st'" and stp: "step st' = wrap32 (step st + 1)"
      and pr: "printed st' = printed st @
             [AlignmentStep (step st) (shift st), PatternFound (shift st)] @
             (if f + shift st \<le> n - m then [MatchShift f] else []) @
             (if shift st + f \<le> n - m then [PatternAlignment (shift st + f)] else [])"
      by blast
    have suf0: "\<forall>x. 0 \<le> x \<and> x < int (length p) \<longrightarrow> p ! nat x = t ! nat (s + x)"
      using suf True m by simp
    then have occ: "occurs_at t p (shift st)"
      unfolding occurs_at_iff [OF ne] using s0 sm m s_def by simp
    have none: "\<forall>x. shift st < x \<and> x < shift st' \<longrightarrow> \<not> occurs_at t p x"
    proof (intro allI impI)
      fix x assume x: "shift st < x \<and> x < shift st'"
      have "\<not> occurs_at t p (s + (x - s))"
      proof
        assume "occurs_at t p (s + (x - s))"
        from occ_compat [OF this ne s0 _ suf0] x have "compat p 0 (x - s)"
          unfolding s_def by simp
        from table_ok_safe [OF tok ne _ _ _ this] x sh show False
          unfolding s_def f_def by simp
      qed
      then show "\<not> occurs_at t p x" by simp
    qed
    have al: "alignments (printed st') = alignments (printed st) @ [shift st]"
      unfolding pr by (simp add: alignments_def)
    have "search_inv t p st'"
      using search_inv_step [OF inv _ _ _ none al stp] le n m sh f1 mi occ fo by simp
    with ss sh f1 show ?thesis by simp
  next
    case False
    then have j0: "0 \<le> j" by simp
    define c where "c = t ! nat (s + j)"
    define b where "b = bct ! nat (uchar c)"
    define g where "g = gs ! nat (j + 1)"
    define bc where "bc = max 1 (j - b)"
    define fin where "fin = max bc g"
    have r1: "rd t (shift st + j) = Some c"
      using j0 j s0 sm unfolding s_def [symmetric] c_def by (simp add: rd_Some)
    have r2: "rd bct (uchar c) = Some b"
      using uchar_range [of c] lbct unfolding b_def by (simp add: rd_Some)
    have r3: "rd gs (j + 1) = Some g"
      using j0 j lgs unfolding g_def by (simp add: rd_Some)
    from searchStep_mismatch [OF cl [unfolded s_def] j0 r1 r2 r3 bc_def [symmetric]
        fin_def [symmetric], where n = n]
    obtain st' where
      ss: "searchStep t p n m bct gs st = Some st'"
      and sh: "shift st' = shift st + fin"
      and mi: "matchedIndex st' = matchedIndex st"
      and fo: "found st' = found st" and stp: "step st' = wrap32 (step st + 1)"
      and pr: "printed st' = printed st @
             [AlignmentStep (step st) (shift st),
              ShiftDetails bc g (if bc \<ge> g then ''Bad Character'' else ''Good Suffix'') fin] @
             (if shift st + fin \<le> n - m then [PatternAlignment (shift st + fin)] else [])"
      by blast
    have fin1: "1 \<le> fin" unfolding fin_def bc_def by simp
    have nocc: "\<not> occurs_at t p (shift st)"
    proof
      assume "occurs_at t p (shift st)"
      then have "t ! nat (s + j) = p ! nat j"
        unfolding occurs_at_iff [OF ne] s_def using j0 j m by simp
      with mis j0 show False by simp
    qed
    have suf1: "\<forall>x. j + 1 \<le> x \<and> x < int (length p) \<longrightarrow> p ! nat x = t ! nat (s + x)"
      using suf m by simp
    have mis1: "1 \<le> j + 1 \<longrightarrow> p ! nat (j + 1 - 1) \<noteq> t ! nat (s + (j + 1 - 1))"
      using mis j0 by simp
    have none: "\<forall>x. shift st < x \<and> x < shift st' \<longrightarrow> \<not> occurs_at t p x"
    proof (intro allI impI)
      fix x assume x: "shift st < x \<and> x < shift st'"
      define d where "d = x - s"
      have d: "1 \<le> d" "d < fin" using x sh unfolding d_def s_def by linarith+
      have "\<not> occurs_at t p (s + d)"
      proof (cases "d < g")
        case True
        show ?thesis
        proof
          assume "occurs_at t p (s + d)"
          from occ_compat [OF this ne s0 d(1) suf1 mis1] j0 j m have "compat p (j + 1) d"
            by simp
          from table_ok_safe [OF tok ne _ _ d(1) this] j0 j m True show False
            unfolding g_def by simp
        qed
      next
        case False
        with d have "d < bc" unfolding fin_def by simp
        with d have "d < j - b" unfolding bc_def by simp
        from bc_shift_safe [OF _ ne s0 j0 _ d(1) this] lb [of c] j m show ?thesis
          unfolding b_def c_def by simp
      qed
      then show "\<not> occurs_at t p x" unfolding d_def by simp
    qed
    have al: "alignments (printed st') = alignments (printed st) @ [shift st]"
      unfolding pr by (simp add: alignments_def)
    have "search_inv t p st'"
      using search_inv_step [OF inv _ _ _ none al stp] le n m sh fin1 mi nocc fo by simp
    with ss sh fin1 show ?thesis by simp
  qed
qed

subsection \<open>The search loop and the whole function\<close>

lemma searchLoop_spec:
  assumes n: "n = int (length t)" and m: "m = int (length p)" and ne: "p \<noteq> []"
    and tb: "tables_ok p bct gs"
  shows "search_inv t p st \<Longrightarrow>
         \<exists>st'. searchLoop t p n m bct gs st = Some st' \<and> search_inv t p st' \<and>
           n - m < shift st'"
proof (induction "nat (n - m + 1 - shift st)" arbitrary: st rule: less_induct)
  case less
  show ?case
  proof (cases "shift st \<le> n - m")
    case False
    then have "searchLoop t p n m bct gs st = Some st"
      by (subst searchLoop.simps) simp
    with False less.prems show ?thesis by simp
  next
    case True
    from searchStep_spec [OF n m ne tb less.prems True]
    obtain st1 where
      ss: "searchStep t p n m bct gs st = Some st1"
      and inv1: "search_inv t p st1" and lt: "shift st < shift st1"
      by blast
    have "nat (n - m + 1 - shift st1) < nat (n - m + 1 - shift st)"
      using True lt by linarith
    from less.hyps [OF this inv1]
    obtain st' where
      "searchLoop t p n m bct gs st1 = Some st'" "search_inv t p st'" "n - m < shift st'"
      by blast
    moreover have "searchLoop t p n m bct gs st = searchLoop t p n m bct gs st1"
      using True ss by (subst searchLoop.simps) simp
    ultimately show ?thesis by simp
  qed
qed

lemma search_inv_init:
  "search_inv t p \<lparr>shift = 0, found = False, totalSkippedChars = 0, step = 1,
                   matchedIndex = [], printed = []\<rparr>"
  unfolding search_inv_def by (simp add: alignments_def wrap32_id)

lemma tables_ok_computed:
  assumes "int (length p) < INT_MAX"
  shows "\<exists>bct gs. precomputeBadCharacterTable p = Some bct \<and>
      precomputeGoodSuffixTable p = Some gs \<and> tables_ok p bct gs"
proof -
  have "int (length p) \<le> INT_MAX" using assms by simp
  from precomputeBadCharacterTable_spec [OF this] precomputeGoodSuffixTable_spec [OF assms]
  show ?thesis unfolding tables_ok_def by blast
qed

lemma searchBoyerMoore_run:
  assumes ne: "p \<noteq> []" and le: "length p \<le> length t"
    and fit: "int (length t) \<le> INT_MAX" "int (length p) < INT_MAX"
  shows "\<exists>st1. search_inv t p st1 \<and> int (length t) - int (length p) < shift st1 \<and>
           searchBoyerMoore t p =
             Some (st1\<lparr>printed := printed st1 @ (if found st1 then [] else [NotFound]) @
                     [Summary (matchedIndex st1) (totalSkippedChars st1)]\<rparr>)"
proof -
  obtain bct gs where
    b: "precomputeBadCharacterTable p = Some bct"
    and g: "precomputeGoodSuffixTable p = Some gs" and tb: "tables_ok p bct gs"
    using tables_ok_computed [OF fit(2)] by blast
  have nn: "narrow (length t) = int (length t)" "narrow (length p) = int (length p)"
    using fit by (simp_all add: narrow_id)
  from searchLoop_spec [OF refl refl ne tb search_inv_init]
  obtain st1 where
    sl: "searchLoop t p (int (length t)) (int (length p)) bct gs
           \<lparr>shift = 0, found = False, totalSkippedChars = 0, step = 1,
            matchedIndex = [], printed = []\<rparr> = Some st1"
    and inv: "search_inv t p st1" and ex: "int (length t) - int (length p) < shift st1"
    by blast
  have "searchBoyerMoore t p =
          Some (st1\<lparr>printed := printed st1 @ (if found st1 then [] else [NotFound]) @
                  [Summary (matchedIndex st1) (totalSkippedChars st1)]\<rparr>)"
    unfolding searchBoyerMoore_def Let_def nn using ne le b g sl by simp
  with inv ex show ?thesis by blast
qed

lemma naiveSearch_eq:
  assumes ne: "p \<noteq> []" and le: "length p \<le> length t"
    and ex: "int (length t) - int (length p) < s"
  shows "filter (occurs_at t p) [0..s - 1] = naiveSearch t p"
proof -
  have "[0..s - 1] = [0..int (length t) - int (length p)] @
          [int (length t) - int (length p) + 1..s - 1]"
    using le ex by (intro upto_split2) linarith+
  moreover have "filter (occurs_at t p) [int (length t) - int (length p) + 1..s - 1] = []"
  proof (rule filter_upto_empty, intro allI impI)
    fix x assume "int (length t) - int (length p) + 1 \<le> x \<and> x \<le> s - 1"
    then have "\<not> x + int (length p) \<le> int (length t)" by linarith
    then show "\<not> occurs_at t p x"
      unfolding occurs_at_iff [OF ne] by blast
  qed
  ultimately show ?thesis unfolding naiveSearch_occurs by simp
qed

subsection \<open>Auxiliary facts for the properties\<close>

lemma lastBelow_rightmost:
  assumes lb: "lastBelow p (int (length p)) c b"
  shows "b = rightmost p c"
proof (cases "c \<in> set p")
  case False
  have "\<not> (0 \<le> b \<and> b < int (length p) \<and> p ! nat b = c)"
  proof
    assume a: "0 \<le> b \<and> b < int (length p) \<and> p ! nat b = c"
    then have "nat b < length p" by linarith
    then have "p ! nat b \<in> set p" by (rule nth_mem)
    with a False show False by simp
  qed
  with lb have "b = - 1" unfolding lastBelow_def by blast
  with False show ?thesis unfolding rightmost_def by simp
next
  case True
  then obtain i where i: "i < length p" "p ! i = c"
    by (auto simp add: in_set_conv_nth)
  have "\<not> (\<forall>x. 0 \<le> x \<and> x < int (length p) \<longrightarrow> p ! nat x \<noteq> c)"
  proof
    assume "\<forall>x. 0 \<le> x \<and> x < int (length p) \<longrightarrow> p ! nat x \<noteq> c"
    then have "p ! nat (int i) \<noteq> c" using i(1) by (metis of_nat_0_le_iff of_nat_less_iff)
    with i(2) show False by simp
  qed
  with lb have b: "0 \<le> b" "b < int (length p)" "p ! nat b = c"
    and after: "\<forall>x. b < x \<and> x < int (length p) \<longrightarrow> p ! nat x \<noteq> c"
    unfolding lastBelow_def by blast+
  have "y \<le> nat b" if "y < length p" "p ! y = c" for y
  proof (rule ccontr)
    assume "\<not> y \<le> nat b"
    then have "b < int y \<and> int y < int (length p)" using that(1) b(1) by linarith
    with after have "p ! nat (int y) \<noteq> c" by blast
    with that(2) show False by simp
  qed
  moreover have "nat b < length p" using b by linarith
  ultimately have "Max (set (filter (\<lambda>i. p ! i = c) [0..<length p])) = nat b"
    using b(3) by (intro Max_eqI) auto
  with True b(1) show ?thesis unfolding rightmost_def by simp
qed

lemma table_ok_pos:
  assumes t: "table_ok p gs" and k: "0 \<le> k" "k \<le> int (length p)"
  shows "1 \<le> gs ! nat k"
proof -
  from t k consider (one) "1 \<le> gs ! nat k" | (two) "border_from p k (gs ! nat k)"
    unfolding table_ok_def by blast
  then show ?thesis
  proof cases
    case one then show ?thesis .
  next
    case two
    from border_from_pos [OF two k(1)] show ?thesis .
  qed
qed

lemma widest_border_is_border:
  assumes "p \<noteq> []"
  shows "is_border p (widest_border p)"
proof -
  have "is_border p 0" using assms unfolding is_border_def by simp
  then have "set (filter (is_border p) [0..<length p]) \<noteq> {}"
    using assms by (auto simp add: filter_empty_conv)
  then have "Max (set (filter (is_border p) [0..<length p])) \<in> set (filter (is_border p) [0..<length p])"
    by (intro Max_in) simp_all
  then show ?thesis unfolding widest_border_def by simp
qed


lemma tables_ok_of_computed:
  assumes "int (length p) < INT_MAX"
    and "precomputeBadCharacterTable p = Some bct" "precomputeGoodSuffixTable p = Some gs"
  shows "tables_ok p bct gs"
  using tables_ok_computed [OF assms(1)] assms(2,3) by auto

lemma match_shift_safe:
  assumes tok: "table_ok p gs" and ne: "p \<noteq> []" and s0: "0 \<le> s"
    and occ: "occurs_at t p s" and x: "s < x" "x < s + gs ! 0"
  shows "\<not> occurs_at t p x"
proof
  assume o: "occurs_at t p x"
  have suf0: "\<forall>y. 0 \<le> y \<and> y < int (length p) \<longrightarrow> p ! nat y = t ! nat (s + y)"
    using occ unfolding occurs_at_iff [OF ne] by simp
  have "occurs_at t p (s + (x - s))" using o by simp
  from occ_compat [OF this ne s0 _ suf0] x have "compat p 0 (x - s)" by simp
  from table_ok_safe [OF tok ne _ _ _ this] x show False by simp
qed

subsection \<open>Bounds that hold for every pattern\<close>

lemma setIfZero_bounds:
  assumes g: "shifts_bounds gs m i" and k: "0 \<le> k" "k \<le> m" and v: "1 \<le> v" and li: "logInv gs ws"
  shows "\<exists>gs' ws'. setIfZero gs ws k v = Some (gs', ws') \<and> shifts_bounds gs' m i \<and>
           logInv gs' ws' \<and> 1 \<le> gs' ! nat k"
proof -
  have len: "int (length gs) = m + 1" using g unfolding shifts_bounds_def by simp
  have kr: "0 \<le> k" "k < int (length gs)" using k len by linarith+
  have nn: "0 \<le> gs ! nat k" using g k unfolding shifts_bounds_def by blast
  show ?thesis
  proof (cases "gs ! nat k = 0")
    case False
    with nn have "1 \<le> gs ! nat k" by linarith
    with setIfZero_eq [OF kr, of ws v] False g li show ?thesis by simp
  next
    case True
    have "shifts_bounds (gs[nat k := v]) m i"
      unfolding shifts_bounds_def
    proof (intro conjI allI impI)
      show "int (length (gs[nat k := v])) = m + 1" using len by simp
    next
      fix x assume x: "0 \<le> x \<and> x \<le> m"
      have o: "0 \<le> gs ! nat x" "x < i \<Longrightarrow> 1 \<le> gs ! nat x"
        using g x unfolding shifts_bounds_def by blast+
      have e: "gs[nat k := v] ! nat x = (if x = k then v else gs ! nat x)"
      proof (cases "x = k")
        case True
        then show ?thesis using kr by simp
      next
        case False
        with x k have "nat x \<noteq> nat k" by linarith
        with False show ?thesis by simp
      qed
      show "0 \<le> gs[nat k := v] ! nat x" unfolding e using o(1) v by simp
      show "1 \<le> gs[nat k := v] ! nat x" if "x < i" unfolding e using o(2) [OF that] v by simp
    qed
    moreover have "logInv (gs[nat k := v]) (ws @ [(k, v)])"
      using logInv_write [OF li kr True] v by simp
    moreover have "gs[nat k := v] ! nat k = v" using kr by simp
    ultimately show ?thesis
      using setIfZero_eq [OF kr, of ws v] True v by simp
  qed
qed

lemma shifts_bounds_next:
  assumes "shifts_bounds gs m i" "1 \<le> gs ! nat i"
  shows "shifts_bounds gs m (i + 1)"
  unfolding shifts_bounds_def
proof (intro conjI allI impI)
  show "int (length gs) = m + 1" using assms(1) unfolding shifts_bounds_def by simp
next
  fix k assume k: "0 \<le> k \<and> k \<le> m"
  then show "0 \<le> gs ! nat k" using assms(1) unfolding shifts_bounds_def by blast
  show "1 \<le> gs ! nat k" if "k < i + 1"
  proof (cases "k = i")
    case True with assms(2) show ?thesis by simp
  next
    case False
    with that have "k < i" by linarith
    with k assms(1) show ?thesis unfolding shifts_bounds_def by blast
  qed
qed

lemma borderChain_bounds:
  assumes m: "m \<le> int (length p)" and i: "1 \<le> i" "i \<le> m" and bp: "borderPos_bounds bp m i"
  shows "i < j \<Longrightarrow> j \<le> m + 1 \<Longrightarrow> shifts_bounds gs m 0 \<Longrightarrow> logInv gs ws \<Longrightarrow>
         \<exists>j2 gs2 ws2. borderChain p m i j gs bp ws = Some (j2, gs2, ws2) \<and>
           i < j2 \<and> j2 \<le> m + 1 \<and> shifts_bounds gs2 m 0 \<and> logInv gs2 ws2"
proof (induction "nat (m + 1 - j)" arbitrary: j gs ws rule: less_induct)
  case less
  note ij = less.prems(1) and jm = less.prems(2) and g = less.prems(3) and li = less.prems(4)
  show ?case
  proof (cases "j \<le> m")
    case False
    then have "borderChain p m i j gs bp ws = Some (j, gs, ws)"
      by (subst borderChain.simps) simp
    with ij jm g li show ?thesis by simp
  next
    case True
    have r1: "rd p (i - 1) = Some (p ! nat (i - 1))"
      using i m by (simp add: rd_Some)
    have r2: "rd p (j - 1) = Some (p ! nat (j - 1))"
      using i ij True m by (simp add: rd_Some)
    show ?thesis
    proof (cases "p ! nat (i - 1) = p ! nat (j - 1)")
      case eq: True
      have "borderChain p m i j gs bp ws = Some (j, gs, ws)"
        using True r1 r2 eq by (subst borderChain.simps) simp
      with ij jm g li show ?thesis by simp
    next
      case ne: False
      have j0: "0 \<le> j" "1 \<le> j - i" using i ij by linarith+
      from setIfZero_bounds [OF g j0(1) True j0(2) li]
      obtain gs' ws' where
        s: "setIfZero gs ws j (j - i) = Some (gs', ws')"
        and g': "shifts_bounds gs' m 0" and li': "logInv gs' ws'"
        by blast
      define j' where "j' = bp ! nat j"
      have r3: "rd bp j = Some j'"
        using bp j0(1) True unfolding borderPos_bounds_def j'_def by (simp add: rd_Some)
      have jj': "j < j'" "j' \<le> m + 1"
        using bp ij True unfolding borderPos_bounds_def j'_def by simp_all
      have unf: "borderChain p m i j gs bp ws = borderChain p m i j' gs' bp ws'"
        using True r1 r2 ne s r3 by (subst borderChain.simps) simp
      have "nat (m + 1 - j') < nat (m + 1 - j)" "i < j'"
        using jj' True ij by linarith+
      from less.hyps [OF this jj'(2) g' li'] unf show ?thesis by simp
    qed
  qed
qed

lemma borderPass_bounds:
  assumes m: "m \<le> int (length p)"
  shows "0 \<le> i \<Longrightarrow> i \<le> m \<Longrightarrow> i < j \<Longrightarrow> j \<le> m + 1 \<Longrightarrow> borderPos_bounds bp m i \<Longrightarrow>
         shifts_bounds gs m 0 \<Longrightarrow> logInv gs ws \<Longrightarrow>
         \<exists>gs1 bp1 ws1. borderPass p m i j gs bp ws = Some (gs1, bp1, ws1) \<and>
           borderPos_bounds bp1 m 0 \<and> shifts_bounds gs1 m 0 \<and> logInv gs1 ws1"
proof (induction "nat i" arbitrary: i j gs bp ws rule: less_induct)
  case less
  note i = less.prems(1,2) and ij = less.prems(3) and jm = less.prems(4)
    and bp = less.prems(5) and g = less.prems(6) and li = less.prems(7)
  show ?case
  proof (cases "i > 0")
    case False
    with i have "i = 0" by simp
    then have "borderPass p m i j gs bp ws = Some (gs, bp, ws)"
      by (subst borderPass.simps) simp
    with bp g li \<open>i = 0\<close> show ?thesis by simp
  next
    case True
    then have i1: "1 \<le> i" by simp
    from borderChain_bounds [OF m i1 i(2) bp ij jm g li]
    obtain j2 gs2 ws2 where
      res: "borderChain p m i j gs bp ws = Some (j2, gs2, ws2)"
      and j2: "i < j2" "j2 \<le> m + 1" and g2: "shifts_bounds gs2 m 0" and li2: "logInv gs2 ws2"
      by blast
    define bp' where "bp' = bp[nat (i - 1) := j2 - 1]"
    have len: "int (length bp) = m + 1"
      using bp unfolding borderPos_bounds_def by simp
    have w: "wr bp (i - 1) (j2 - 1) = Some bp'"
      using i1 i(2) len by (simp add: wr_Some bp'_def)
    have bp2: "borderPos_bounds bp' m (i - 1)"
      unfolding borderPos_bounds_def
    proof (intro conjI allI impI)
      show "int (length bp') = m + 1" using len by (simp add: bp'_def)
    next
      fix k assume k: "i - 1 \<le> k \<and> k \<le> m"
      have e: "bp' ! nat k = (if k = i - 1 then j2 - 1 else bp ! nat k)"
      proof (cases "k = i - 1")
        case True
        with i1 i(2) len have "nat (i - 1) < length bp" by linarith
        with True show ?thesis by (simp add: bp'_def)
      next
        case False
        with k i1 have "nat k \<noteq> nat (i - 1)" by linarith
        with False show ?thesis by (simp add: bp'_def)
      qed
      have o: "k \<noteq> i - 1 \<Longrightarrow> k < bp ! nat k \<and> bp ! nat k \<le> m + 1"
        using bp k unfolding borderPos_bounds_def by simp
      show "k < bp' ! nat k" unfolding e using o j2 by auto
      show "bp' ! nat k \<le> m + 1" unfolding e using o j2 by auto
    qed
    have "nat (i - 1) < nat i" "0 \<le> i - 1" "i - 1 \<le> m" "i - 1 < j2 - 1" "j2 - 1 \<le> m + 1"
      using i1 i(2) j2 by linarith+
    from less.hyps [OF this bp2 g2 li2]
    obtain gs1 bp1 ws1 where
      "borderPass p m (i - 1) (j2 - 1) gs2 bp' ws2 = Some (gs1, bp1, ws1)"
      "borderPos_bounds bp1 m 0" "shifts_bounds gs1 m 0" "logInv gs1 ws1"
      by blast
    moreover have "borderPass p m i j gs bp ws = borderPass p m (i - 1) (j2 - 1) gs2 bp' ws2"
      using True res w by (subst borderPass.simps) simp
    ultimately show ?thesis by simp
  qed
qed

lemma fillPass_bounds:
  assumes bp: "borderPos_bounds bp m 0"
  shows "0 \<le> i \<Longrightarrow> i \<le> m + 1 \<Longrightarrow> i \<le> j \<Longrightarrow> 1 \<le> j \<Longrightarrow> j \<le> m + 1 \<Longrightarrow>
         shifts_bounds gs m i \<Longrightarrow> logInv gs ws \<Longrightarrow>
         \<exists>gs2 ws2. fillPass m i j gs bp ws = Some (gs2, ws2) \<and>
           shifts_bounds gs2 m (m + 1) \<and> logInv gs2 ws2"
proof (induction "nat (m + 1 - i)" arbitrary: i j gs ws rule: less_induct)
  case less
  note i = less.prems(1,2) and ij = less.prems(3) and j = less.prems(4,5)
    and g = less.prems(6) and li = less.prems(7)
  show ?case
  proof (cases "i \<le> m")
    case False
    with i have "i = m + 1" by simp
    moreover have "fillPass m i j gs bp ws = Some (gs, ws)"
      using False by (subst fillPass.simps) simp
    ultimately show ?thesis using g li by simp
  next
    case True
    from setIfZero_bounds [OF g i(1) True j(1) li]
    obtain gs' ws' where
      s: "setIfZero gs ws i j = Some (gs', ws')"
      and g': "shifts_bounds gs' m i" and li': "logInv gs' ws'" and set: "1 \<le> gs' ! nat i"
      by blast
    define j' where "j' = (if i = j then bp ! nat j else j)"
    have lenb: "int (length bp) = m + 1"
      using bp unfolding borderPos_bounds_def by simp
    have r: "(if i = j then rd bp j else Some j) = Some j'"
      using i True lenb by (simp add: j'_def rd_Some)
    have j': "i + 1 \<le> j'" "1 \<le> j'" "j' \<le> m + 1"
    proof -
      have "i = j \<Longrightarrow> j < bp ! nat j \<and> bp ! nat j \<le> m + 1"
        using bp i(1) True unfolding borderPos_bounds_def by simp
      then show "i + 1 \<le> j'" "1 \<le> j'" "j' \<le> m + 1"
        unfolding j'_def using ij j by auto
    qed
    have unf: "fillPass m i j gs bp ws = fillPass m (i + 1) j' gs' bp ws'"
      using True s r by (subst fillPass.simps) simp
    have g'': "shifts_bounds gs' m (i + 1)"
      using shifts_bounds_next [OF g' set] .
    have "nat (m + 1 - (i + 1)) < nat (m + 1 - i)" "0 \<le> i + 1" "i + 1 \<le> m + 1"
      using True i by linarith+
    from less.hyps [OF this j' g'' li'] unf show ?thesis by simp
  qed
qed

text \<open>
  The table is built exactly when the stored length \<open>m\<close> is not negative and \<open>m + 1\<close> does
  not overflow; it has \<open>m + 1\<close> entries, all at least \<open>1\<close>.
\<close>

lemma precomputeGoodSuffixTable_writes_returns:
  assumes m: "m = narrow (length p)" and m0: "0 \<le> m" and mx: "m < INT_MAX"
  shows "\<exists>gs ws. precomputeGoodSuffixTable_writes p = Some (gs, ws) \<and>
           int (length gs) = m + 1 \<and> (\<forall>k. 0 \<le> k \<and> k \<le> m \<longrightarrow> 1 \<le> gs ! nat k) \<and>
           logInv gs ws"
proof -
  define gs0 where "gs0 = replicate (nat (m + 1)) (0::int)"
  define bp0 where "bp0 = replicate (nat (m + 1)) (0::int)"
  define bp where "bp = bp0[nat m := m + 1]"
  have mp: "m \<le> int (length p)"
    using narrow_le [of "length p"] m0 m by simp
  have wm: "wrap32 (m + 1) = m + 1"
    using m0 mx unfolding INT_MAX_def by (intro wrap32_id) linarith+
  have v: "newVector (m + 1) (0::int) = Some gs0" "newVector (m + 1) (0::int) = Some bp0"
    unfolding gs0_def bp0_def using m0 by (simp_all add: newVector_Some)
  have w: "wr bp0 m (m + 1) = Some bp"
    unfolding bp_def bp0_def using m0 by (simp add: wr_Some)
  have z: "gs0 ! nat k = 0" if "0 \<le> k" "k \<le> m" for k
    unfolding gs0_def using that by (intro nth_replicate) linarith
  have g0: "shifts_bounds gs0 m 0"
    unfolding shifts_bounds_def using z m0 by (simp add: gs0_def)
  have l0: "logInv gs0 []"
    unfolding logInv_def using z m0 by (simp add: gs0_def)
  have b0: "borderPos_bounds bp m m"
    unfolding borderPos_bounds_def
  proof (intro conjI allI impI)
    show "int (length bp) = m + 1" unfolding bp_def bp0_def using m0 by simp
  next
    fix k assume "m \<le> k \<and> k \<le> m"
    then have "k = m" by linarith
    moreover have "bp ! nat m = m + 1"
      unfolding bp_def bp0_def using m0 by simp
    ultimately show "k < bp ! nat k" "bp ! nat k \<le> m + 1" by simp_all
  qed
  from borderPass_bounds [OF mp m0 _ _ _ b0 g0 l0, of "m + 1"]
  obtain gs1 bp1 ws1 where
    p1: "borderPass p m m (m + 1) gs0 bp [] = Some (gs1, bp1, ws1)"
    and b1: "borderPos_bounds bp1 m 0" and g1: "shifts_bounds gs1 m 0" and l1: "logInv gs1 ws1"
    by auto
  define j0 where "j0 = bp1 ! 0"
  have r: "rd bp1 0 = Some j0"
    using b1 m0 unfolding borderPos_bounds_def j0_def by (simp add: rd_Some)
  have "0 < bp1 ! nat 0 \<and> bp1 ! nat 0 \<le> m + 1"
    using b1 m0 unfolding borderPos_bounds_def by (metis order_refl)
  then have j0: "0 \<le> j0" "1 \<le> j0" "j0 \<le> m + 1"
    unfolding j0_def by simp_all
  from fillPass_bounds [OF b1 _ _ j0 g1 l1] m0
  obtain gs2 ws2 where
    p2: "fillPass m 0 j0 gs1 bp1 ws1 = Some (gs2, ws2)"
    and g2: "shifts_bounds gs2 m (m + 1)" and l2: "logInv gs2 ws2"
    by auto
  have "precomputeGoodSuffixTable_writes p = Some (gs2, ws2)"
    unfolding precomputeGoodSuffixTable_writes_def Let_def m [symmetric] wm
    using v w p1 r p2 by simp
  moreover have "int (length gs2) = m + 1"
    using g2 unfolding shifts_bounds_def by simp
  moreover have "\<forall>k. 0 \<le> k \<and> k \<le> m \<longrightarrow> 1 \<le> gs2 ! nat k"
    using g2 unfolding shifts_bounds_def by simp
  ultimately show ?thesis using l2 by blast
qed

lemma precomputeGoodSuffixTable_writes_none:
  assumes m: "m = narrow (length p)" and out: "m < 0 \<or> INT_MAX \<le> m"
  shows "precomputeGoodSuffixTable_writes p = None"
proof -
  have rng: "- 2147483648 \<le> m" "m \<le> 2147483647"
    using narrow_range [of "length p"] m unfolding INT_MAX_def by simp_all
  consider (max) "m = 2147483647" | (neg) "m \<le> - 2" | (minus1) "m = - 1"
    using out rng unfolding INT_MAX_def by linarith
  then show ?thesis
  proof cases
    case max
    have "wrap32 (m + 1) = - 2147483648" unfolding max wrap32_def by simp
    then show ?thesis
      unfolding precomputeGoodSuffixTable_writes_def Let_def m [symmetric]
      by (simp add: newVector_def)
  next
    case neg
    have "wrap32 (m + 1) = m + 1" using neg rng by (intro wrap32_id) linarith+
    with neg show ?thesis
      unfolding precomputeGoodSuffixTable_writes_def Let_def m [symmetric]
      by (simp add: newVector_def)
  next
    case minus1
    have "wrap32 (m + 1) = 0" unfolding minus1 wrap32_def by simp
    then show ?thesis
      unfolding precomputeGoodSuffixTable_writes_def Let_def m [symmetric]
      by (simp add: newVector_def wr_def minus1)
  qed
qed

lemma precomputeGoodSuffixTable_length:
  assumes "precomputeGoodSuffixTable p = Some gs"
  shows "0 \<le> narrow (length p) \<and> narrow (length p) < INT_MAX \<and>
         int (length gs) = narrow (length p) + 1 \<and> 1 \<le> gs ! 0"
proof -
  define m where "m = narrow (length p)"
  have some: "precomputeGoodSuffixTable_writes p \<noteq> None"
    using assms unfolding precomputeGoodSuffixTable_def by auto
  have r: "0 \<le> m" "m < INT_MAX"
    using precomputeGoodSuffixTable_writes_none [OF m_def] some by force+
  from precomputeGoodSuffixTable_writes_returns [OF m_def r] assms
  have "int (length gs) = m + 1" "\<forall>k. 0 \<le> k \<and> k \<le> m \<longrightarrow> 1 \<le> gs ! nat k"
    unfolding precomputeGoodSuffixTable_def by auto
  moreover from this(2) r(1) have "1 \<le> gs ! nat 0" by (metis order_refl)
  ultimately show ?thesis using r unfolding m_def by simp
qed

text \<open>What a result of the comparison tells, whatever the lengths.\<close>

lemma compareLoop_result:
  assumes "compareLoop p t s j0 = Some j"
  shows "j \<le> j0 \<and> (0 \<le> j \<longrightarrow> (\<exists>a b. rd p j = Some a \<and> rd t (s + j) = Some b \<and> a \<noteq> b))"
  using assms
proof (induction p t s j0 rule: compareLoop.induct)
  case (1 p t s j0)
  show ?case
  proof (cases "j0 \<ge> 0")
    case False
    with "1.prems" have "j = j0" by (subst (asm) compareLoop.simps) simp
    with False show ?thesis by simp
  next
    case True
    from "1.prems" True obtain a b where
      r: "rd p j0 = Some a" "rd t (s + j0) = Some b"
      and c: "(if a = b then compareLoop p t s (j0 - 1) else Some j0) = Some j"
      by (subst (asm) compareLoop.simps) (auto split: bind_splits)
    show ?thesis
    proof (cases "a = b")
      case False
      with c have "j = j0" by simp
      with r False show ?thesis by auto
    next
      case eq: True
      with c have "compareLoop p t s (j0 - 1) = Some j" by simp
      from "1.IH" [OF True r eq this] show ?thesis by auto
    qed
  qed
qed

text \<open>The two ways in which the search ends before its loop.\<close>

lemma searchBoyerMoore_degenerate:
  assumes "narrow (length p) = 0 \<or> narrow (length t) < narrow (length p)"
  shows "searchBoyerMoore t p =
           Some \<lparr>shift = 0, found = False, totalSkippedChars = 0, step = 1,
                 matchedIndex = [], printed = [EmptyOrLonger]\<rparr>"
  using assms unfolding searchBoyerMoore_def Let_def by auto

lemma searchBoyerMoore_none:
  assumes "narrow (length p) \<noteq> 0" "narrow (length p) \<le> narrow (length t)"
    and "narrow (length p) < 0 \<or> INT_MAX \<le> narrow (length p)"
  shows "searchBoyerMoore t p = None"
proof -
  obtain T where "precomputeBadCharacterTable p = Some T"
    using precomputeBadCharacterTable_total by blast
  moreover have "precomputeGoodSuffixTable p = None"
    using precomputeGoodSuffixTable_writes_none [OF refl assms(3)]
    unfolding precomputeGoodSuffixTable_def by simp
  ultimately show ?thesis
    unfolding searchBoyerMoore_def Let_def using assms(1,2) by simp
qed

subsection \<open>Texts longer than the stored length\<close>

text \<open>
  A text longer than \<^const>\<open>INT_MAX\<close>: the search reads only the part of the text below
  the stored length \<open>n\<close>, so it runs as on that part.
\<close>

lemma rd_take:
  assumes "0 \<le> k" "k < n" "n \<le> int (length t)"
  shows "rd (take (nat n) t) k = rd t k"
proof -
  have "nat k < nat n" "nat k < length t" using assms by linarith+
  then show ?thesis using assms unfolding rd_def by simp
qed

lemma compareLoop_take:
  assumes s: "0 \<le> s" and n: "n \<le> int (length t)"
  shows "s + j < n \<Longrightarrow> compareLoop p (take (nat n) t) s j = compareLoop p t s j"
proof (induction "nat (j + 1)" arbitrary: j rule: less_induct)
  case less
  show ?case
  proof (cases "j \<ge> 0")
    case False
    then show ?thesis
      by (simp add: compareLoop.simps [of p "take (nat n) t" s j] compareLoop.simps [of p t s j])
  next
    case True
    have r: "rd (take (nat n) t) (s + j) = rd t (s + j)"
      using True s less.prems n by (intro rd_take) linarith+
    have "nat (j - 1 + 1) < nat (j + 1)" "s + (j - 1) < n"
      using True less.prems by linarith+
    from less.hyps [OF this]
    have ih: "compareLoop p (take (nat n) t) s (j - 1) = compareLoop p t s (j - 1)" .
    have "compareLoop p (take (nat n) t) s j =
          do { a \<leftarrow> rd p j; b \<leftarrow> rd (take (nat n) t) (s + j);
               if a = b then compareLoop p (take (nat n) t) s (j - 1) else Some j }"
      using True by (subst compareLoop.simps) simp
    also have "\<dots> = do { a \<leftarrow> rd p j; b \<leftarrow> rd t (s + j);
               if a = b then compareLoop p t s (j - 1) else Some j }"
      unfolding r ih ..
    also have "\<dots> = compareLoop p t s j"
      using True by (subst (2) compareLoop.simps) simp
    finally show ?thesis .
  qed
qed

lemma searchStep_take:
  assumes s: "0 \<le> shift st" "shift st + m \<le> n" and n: "n \<le> int (length t)"
  shows "searchStep (take (nat n) t) p n m bct gs st = searchStep t p n m bct gs st"
proof -
  have "shift st + (m - 1) < n" using s by linarith
  from compareLoop_take [OF s(1) n this]
  have c: "compareLoop p (take (nat n) t) (shift st) (m - 1) =
           compareLoop p t (shift st) (m - 1)" .
  show ?thesis
  proof (cases "compareLoop p t (shift st) (m - 1)")
    case None
    with c show ?thesis unfolding searchStep_def by simp
  next
    case (Some j)
    from compareLoop_result [OF Some] have j: "j \<le> m - 1" by simp
    have "rd (take (nat n) t) (shift st + j) = rd t (shift st + j)" if "0 \<le> j"
      using that s j n by (intro rd_take) linarith+
    then show ?thesis
      unfolding searchStep_def using c Some by (simp add: Let_def)
  qed
qed

lemma searchLoop_take:
  assumes n: "n = int (length (take (nat n) t))" and nt: "n \<le> int (length t)"
    and m: "m = int (length p)" and ne: "p \<noteq> []" and tb: "tables_ok p bct gs"
  shows "search_inv (take (nat n) t) p st \<Longrightarrow>
         searchLoop t p n m bct gs st = searchLoop (take (nat n) t) p n m bct gs st"
proof (induction "nat (n - m + 1 - shift st)" arbitrary: st rule: less_induct)
  case less
  show ?case
  proof (cases "shift st \<le> n - m")
    case False
    then show ?thesis
      by (simp add: searchLoop.simps [of t p n m bct gs st]
          searchLoop.simps [of "take (nat n) t" p n m bct gs st])
  next
    case True
    from searchStep_spec [OF n m ne tb less.prems True]
    obtain st1 where
      ss: "searchStep (take (nat n) t) p n m bct gs st = Some st1"
      and inv1: "search_inv (take (nat n) t) p st1" and lt: "shift st < shift st1"
      by blast
    have s0: "0 \<le> shift st" using less.prems unfolding search_inv_def by simp
    have "shift st + m \<le> n" using True by linarith
    from searchStep_take [OF s0 this nt] ss
    have ss': "searchStep t p n m bct gs st = Some st1" by simp
    have "nat (n - m + 1 - shift st1) < nat (n - m + 1 - shift st)"
      using True lt by linarith
    from less.hyps [OF this inv1]
    have "searchLoop t p n m bct gs st1 = searchLoop (take (nat n) t) p n m bct gs st1" .
    moreover have "searchLoop t p n m bct gs st = searchLoop t p n m bct gs st1"
      using True ss' by (subst searchLoop.simps) simp
    moreover have "searchLoop (take (nat n) t) p n m bct gs st =
        searchLoop (take (nat n) t) p n m bct gs st1"
      using True ss by (subst searchLoop.simps) simp
    ultimately show ?thesis by simp
  qed
qed

lemma searchBoyerMoore_take:
  assumes ne: "p \<noteq> []" and fit: "int (length p) < INT_MAX"
    and le: "int (length p) \<le> narrow (length t)"
  shows "searchBoyerMoore t p = searchBoyerMoore (take (nat (narrow (length t))) t) p \<and>
         int (length (take (nat (narrow (length t))) t)) = narrow (length t)"
proof -
  define n where "n = narrow (length t)"
  define t' where "t' = take (nat n) t"
  have n0: "0 \<le> n" using le unfolding n_def by linarith
  have nt: "n \<le> int (length t)"
    unfolding n_def using narrow_le n0 n_def by simp
  have lt': "int (length t') = n"
    unfolding t'_def using n0 nt by simp
  have "n \<le> INT_MAX" unfolding n_def using narrow_range by simp
  then have nn: "narrow (length t') = n" "narrow (length p) = int (length p)"
    using lt' fit by (simp_all add: narrow_id)
  obtain bct gs where
    b: "precomputeBadCharacterTable p = Some bct"
    and g: "precomputeGoodSuffixTable p = Some gs" and tb: "tables_ok p bct gs"
    using tables_ok_computed [OF fit] by blast
  have "searchLoop t p n (int (length p)) bct gs
           \<lparr>shift = 0, found = False, totalSkippedChars = 0, step = 1,
            matchedIndex = [], printed = []\<rparr> =
        searchLoop t' p n (int (length p)) bct gs
           \<lparr>shift = 0, found = False, totalSkippedChars = 0, step = 1,
            matchedIndex = [], printed = []\<rparr>"
    unfolding t'_def
    by (rule searchLoop_take [OF _ nt refl ne tb search_inv_init])
       (use lt' in \<open>simp add: t'_def\<close>)
  then have "searchBoyerMoore t p = searchBoyerMoore t' p"
    unfolding searchBoyerMoore_def Let_def nn n_def [symmetric] using b g by simp
  with lt' show ?thesis unfolding t'_def n_def by simp
qed

text \<open>
  The run for every text: with a text whose stored length is below the length of the pattern
  the function returns at once, otherwise it scans the part of the text below the stored
  length.
\<close>

lemma searchBoyerMoore_returns:
  assumes ne: "p \<noteq> []" and le: "length p \<le> length t" and fit: "int (length p) < INT_MAX"
  shows "\<exists>st. searchBoyerMoore t p = Some st \<and>
           sorted_wrt (<) (alignments (printed st)) \<and>
           (\<forall>a \<in> set (alignments (printed st)).
              0 \<le> a \<and> a < shift st \<and> a \<le> int (length t) - int (length p)) \<and>
           sorted_wrt (<) (matchedIndex st)"
proof (cases "int (length p) \<le> narrow (length t)")
  case False
  have "narrow (length p) = int (length p)" using fit by (simp add: narrow_id)
  with False have "narrow (length p) = 0 \<or> narrow (length t) < narrow (length p)" by simp
  from searchBoyerMoore_degenerate [OF this] show ?thesis
    by (simp add: alignments_def)
next
  case True
  define t' where "t' = take (nat (narrow (length t))) t"
  from searchBoyerMoore_take [OF ne fit True]
  have eq: "searchBoyerMoore t p = searchBoyerMoore t' p"
    and lt': "int (length t') = narrow (length t)"
    unfolding t'_def by simp_all
  have le': "length p \<le> length t'" using True lt' by linarith
  have fit': "int (length t') \<le> INT_MAX" using lt' narrow_range by simp
  have tt: "int (length t') \<le> int (length t)" unfolding t'_def by simp
  from searchBoyerMoore_run [OF ne le' fit' fit]
  obtain st1 where
    inv: "search_inv t' p st1"
    and run: "searchBoyerMoore t' p =
             Some (st1\<lparr>printed := printed st1 @ (if found st1 then [] else [NotFound]) @
                     [Summary (matchedIndex st1) (totalSkippedChars st1)]\<rparr>)"
    by blast
  define st where "st = st1\<lparr>printed := printed st1 @ (if found st1 then [] else [NotFound]) @
                     [Summary (matchedIndex st1) (totalSkippedChars st1)]\<rparr>"
  have al: "alignments (printed st) = alignments (printed st1)"
    unfolding st_def by (simp add: alignments_def)
  have f: "shift st = shift st1" "matchedIndex st = matchedIndex st1"
    unfolding st_def by simp_all
  have so: "sorted_wrt (<) (alignments (printed st1))"
    and bd: "\<forall>a \<in> set (alignments (printed st1)).
        0 \<le> a \<and> a < shift st1 \<and> a \<le> int (length t') - int (length p)"
    and mi: "matchedIndex st1 = filter (occurs_at t' p) [0..shift st1 - 1]"
    using inv unfolding search_inv_def by blast+
  have bd': "\<forall>a \<in> set (alignments (printed st)).
        0 \<le> a \<and> a < shift st \<and> a \<le> int (length t) - int (length p)"
  proof
    fix a assume "a \<in> set (alignments (printed st))"
    with bd al have "0 \<le> a \<and> a < shift st1 \<and> a \<le> int (length t') - int (length p)" by simp
    with tt f show "0 \<le> a \<and> a < shift st \<and> a \<le> int (length t) - int (length p)" by linarith
  qed
  have sm: "sorted_wrt (<) (matchedIndex st)"
    unfolding f mi by (intro sorted_wrt_filter) simp
  have "searchBoyerMoore t p = Some st"
    using eq run unfolding st_def by simp
  with so al bd' sm show ?thesis by simp
qed

section \<open>The properties of the specification\<close>

text \<open>
  C1 does not hold for every text.  The lengths are stored in variables of type
  \<^verbatim>\<open>int\<close>: for a text of \<open>2^31\<close> symbols \<^verbatim>\<open>A\<close> and the pattern \<^verbatim>\<open>A\<close> the stored
  length of the text is \<open>- 2^31\<close>, the function takes the pattern to be longer than the
  text and returns with no match recorded, although the reference scan finds the pattern
  at offset \<open>0\<close>.  For a pattern and a text of \<open>2^31 - 1\<close> symbols \<^verbatim>\<open>A\<close> each the
  expression \<^verbatim>\<open>m + 1\<close> leaves the range of \<^verbatim>\<open>int\<close>, no table is created and the function
  has no result.
\<close>

theorem C1_counterexample:
  "1 \<le> length ''A'' \<and> length ''A'' \<le> length (replicate 2147483648 CHR ''A'') \<and>
   map_option matchedIndex (searchBoyerMoore (replicate 2147483648 CHR ''A'') ''A'') = Some [] \<and>
   0 \<in> set (naiveSearch (replicate 2147483648 CHR ''A'') ''A'') \<and>
   1 \<le> length (replicate 2147483647 CHR ''A'') \<and>
   searchBoyerMoore (replicate 2147483647 CHR ''A'') (replicate 2147483647 CHR ''A'') = None"
proof -
  have n: "narrow (length (replicate 2147483648 CHR ''A'')) = - 2147483648"
    "narrow (length ''A'') = 1" "narrow (length (replicate 2147483647 CHR ''A'')) = INT_MAX"
    by (simp_all add: narrow_def wrap32_def INT_MAX_def)
  have "map_option matchedIndex (searchBoyerMoore (replicate 2147483648 CHR ''A'') ''A'') = Some []"
    by (subst searchBoyerMoore_degenerate) (simp_all only: n, simp_all)
  moreover have "occurs_at (replicate 2147483648 CHR ''A'') ''A'' 0"
    unfolding occurs_at_def by simp
  then have "0 \<in> set (naiveSearch (replicate 2147483648 CHR ''A'') ''A'')"
    unfolding naiveSearch_occurs by simp
  moreover have
    "searchBoyerMoore (replicate 2147483647 CHR ''A'') (replicate 2147483647 CHR ''A'') = None"
    by (rule searchBoyerMoore_none) (simp_all only: n, simp_all add: INT_MAX_def)
  ultimately show ?thesis by simp
qed

text \<open>
  C1, for lengths that the variables hold.  For a text of at most \<^const>\<open>INT_MAX\<close>
  symbols and a pattern of at least one and of fewer than \<^const>\<open>INT_MAX\<close> symbols that
  is no longer than the text, the function returns, and the offsets it has recorded in
  \<^verbatim>\<open>matchedIndex\<close> are, in this order, the offsets found by the reference scan
  \<^const>\<open>naiveSearch\<close>, which tries every offset from \<open>0\<close> to \<open>n - m\<close> in ascending
  order and compares pattern and text symbol by symbol.  The recorded offsets are strictly
  ascending and are exactly the offsets \<open>i\<close> at which the slice \<open>text[i : i + m]\<close> equals
  the pattern, overlapping occurrences included.
\<close>

theorem C1_search_equals_naive:
  assumes "1 \<le> length pattern" "length pattern \<le> length text"
    and "int (length text) \<le> INT_MAX" "int (length pattern) < INT_MAX"
  shows "\<exists>st. searchBoyerMoore text pattern = Some st \<and>
           matchedIndex st = naiveSearch text pattern \<and>
           sorted_wrt (<) (matchedIndex st) \<and>
           set (matchedIndex st) = {i. occurs_at text pattern i}"
proof -
  have ne: "pattern \<noteq> []" using assms(1) by auto
  from searchBoyerMoore_run [OF ne assms(2,3,4)]
  obtain st1 where
    inv: "search_inv text pattern st1"
    and ex: "int (length text) - int (length pattern) < shift st1"
    and run: "searchBoyerMoore text pattern =
             Some (st1\<lparr>printed := printed st1 @ (if found st1 then [] else [NotFound]) @
                     [Summary (matchedIndex st1) (totalSkippedChars st1)]\<rparr>)"
    by blast
  have eq: "matchedIndex st1 = naiveSearch text pattern"
    using inv naiveSearch_eq [OF ne assms(2) ex] unfolding search_inv_def by simp
  have so: "sorted_wrt (<) (naiveSearch text pattern)"
    unfolding naiveSearch_occurs by (intro sorted_wrt_filter) simp
  have "i \<in> set (naiveSearch text pattern) \<longleftrightarrow> occurs_at text pattern i" for i
    unfolding naiveSearch_occurs using occurs_at_iff [OF ne, where i = i] by auto
  then have "set (naiveSearch text pattern) = {i. occurs_at text pattern i}" by blast
  with run eq so show ?thesis by simp
qed

theorem C1_search_equals_naive_witness:
  "\<exists>st. searchBoyerMoore ''AAAAAAB'' ''AB'' = Some st \<and>
     matchedIndex st = naiveSearch ''AAAAAAB'' ''AB'' \<and> naiveSearch ''AAAAAAB'' ''AB'' = [5]"
proof -
  have "naiveSearch ''AAAAAAB'' ''AB'' = [5]" by code_simp
  moreover have "1 \<le> length ''AB''" "length ''AB'' \<le> length ''AAAAAAB''"
    "int (length ''AAAAAAB'') \<le> INT_MAX" "int (length ''AB'') < INT_MAX"
    by (simp_all add: INT_MAX_def)
  note C1_search_equals_naive [OF this]
  ultimately show ?thesis by auto
qed

text \<open>
  C2 does not hold for every nonempty pattern.  For a pattern of \<open>2^31 - 1\<close> symbols
  \<^verbatim>\<open>m + 1\<close> leaves the range of \<^verbatim>\<open>int\<close> and no table is created.  For a pattern of
  \<open>2^32\<close> symbols the stored length is \<open>0\<close> and the table has the single entry \<open>1\<close>
  instead of \<open>2^32 + 1\<close> entries.
\<close>

theorem C2_counterexample:
  "replicate 2147483647 CHR ''A'' \<noteq> [] \<and>
   precomputeGoodSuffixTable (replicate 2147483647 CHR ''A'') = None \<and>
   replicate 4294967296 CHR ''A'' \<noteq> [] \<and>
   precomputeGoodSuffixTable (replicate 4294967296 CHR ''A'') = Some [1] \<and>
   length [1 :: int] \<noteq> length (replicate 4294967296 CHR ''A'') + 1"
proof -
  have n: "narrow (length (replicate 2147483647 CHR ''A'')) = INT_MAX"
    "narrow (length (replicate 4294967296 CHR ''A'')) = 0"
    by (simp_all add: narrow_def wrap32_def INT_MAX_def)
  have "precomputeGoodSuffixTable_writes (replicate 2147483647 CHR ''A'') = None"
    by (rule precomputeGoodSuffixTable_writes_none [OF refl]) (simp only: n, simp)
  then have 1: "precomputeGoodSuffixTable (replicate 2147483647 CHR ''A'') = None"
    unfolding precomputeGoodSuffixTable_def by simp
  have w: "wrap32 1 = 1" by (simp add: wrap32_def)
  have b: "borderPass p 0 0 1 gs bp ws = Some (gs, bp, ws)" for p gs bp ws
    by (subst borderPass.simps) simp
  have f: "fillPass 0 0 1 [0] [1] [] = Some ([1], [(0, 1)])"
    by code_simp
  have "precomputeGoodSuffixTable_writes (replicate 4294967296 CHR ''A'') = Some ([1], [(0, 1)])"
    unfolding precomputeGoodSuffixTable_writes_def Let_def n
    by (simp add: w newVector_def wr_def rd_def b f)
  then have 2: "precomputeGoodSuffixTable (replicate 4294967296 CHR ''A'') = Some [1]"
    unfolding precomputeGoodSuffixTable_def by simp
  from 1 2 show ?thesis by simp
qed

text \<open>
  C2, for patterns shorter than \<^const>\<open>INT_MAX\<close>.  For a nonempty pattern of length
  \<open>m < INT_MAX\<close> the table has \<open>m + 1\<close> entries, each of them between \<open>1\<close> and \<open>m\<close>,
  and entry \<open>0\<close> is \<open>m\<close> minus the width of the widest proper border of the pattern,
  hence \<open>m\<close> when the only border is the empty one.
\<close>

theorem C2_good_suffix_range:
  assumes "pattern \<noteq> []" "int (length pattern) < INT_MAX"
  shows "\<exists>gs. precomputeGoodSuffixTable pattern = Some gs \<and>
           length gs = length pattern + 1 \<and>
           (\<forall>k. k < length gs \<longrightarrow> 1 \<le> gs ! k \<and> gs ! k \<le> int (length pattern)) \<and>
           gs ! 0 = int (length pattern) - int (widest_border pattern) \<and>
           ((\<forall>w. 0 < w \<longrightarrow> \<not> is_border pattern w) \<longrightarrow> gs ! 0 = int (length pattern))"
proof -
  obtain gs where g: "precomputeGoodSuffixTable pattern = Some gs" and t: "table_ok pattern gs"
    using precomputeGoodSuffixTable_spec [OF assms(2)] by blast
  have len: "length gs = length pattern + 1"
    using t unfolding table_ok_def by linarith
  have rng: "1 \<le> gs ! k \<and> gs ! k \<le> int (length pattern)" if "k < length gs" for k
    using table_ok_range [OF t assms(1), of "int k"] that len by simp
  have "suffix_border pattern 0 (gs ! 0) \<and> (\<forall>d. suffix_border pattern 0 d \<longrightarrow> gs ! 0 \<le> d)"
    using table_ok_slot0 [OF t assms(1)] .
  then have w: "int (widest_border pattern) = int (length pattern) - gs ! 0"
    using widest_border_eq by blast
  have "gs ! 0 = int (length pattern)" if "\<forall>w. 0 < w \<longrightarrow> \<not> is_border pattern w"
  proof -
    have "widest_border pattern = 0"
      using that widest_border_is_border [OF assms(1)] by auto
    with w show ?thesis by linarith
  qed
  with g len rng w show ?thesis by simp
qed

theorem C2_good_suffix_range_witness:
  "precomputeGoodSuffixTable ''ABAB'' = Some [2, 2, 2, 4, 1] \<and> widest_border ''ABAB'' = 2"
proof -
  have "precomputeGoodSuffixTable ''ABAB'' = Some [2, 2, 2, 4, 1]" by code_simp
  moreover have "''ABAB'' \<noteq> []" "int (length ''ABAB'') < INT_MAX"
    by (simp_all add: INT_MAX_def)
  from C2_good_suffix_range [OF this] calculation have "widest_border ''ABAB'' = 2" by auto
  ultimately show ?thesis by simp
qed




text \<open>
  C4.  Take the tables built for the pattern, the lengths \<open>n\<close> and \<open>m\<close> as the function
  stores them, and any state of the search loop whose alignment \<open>s\<close> is at most \<open>n - m\<close>.
  If the comparison from the right stops at a position \<open>j \<ge> 0\<close>, the symbols of pattern
  and text differ there, the iteration advances the alignment by
  \<open>max (max 1 (j - badCharTable[text[s + j]])) goodSuffixShifts[j + 1]\<close>, and the details it
  prints name the bad-character heuristic exactly when its shift is at least the
  good-suffix shift, so also when the two are equal.  The loop goes on from the state that
  the iteration returns.
\<close>

theorem C4_mismatch_shift:
  assumes "precomputeBadCharacterTable pattern = Some badCharTable"
    and "precomputeGoodSuffixTable pattern = Some goodSuffixShifts"
    and "n = narrow (length text)" "m = narrow (length pattern)"
    and "shift st \<le> n - m"
    and "compareLoop pattern text (shift st) (m - 1) = Some j" "0 \<le> j"
  shows "\<exists>st' c badCharShift goodSuffixShift heuristic.
           j < m \<and> rd text (shift st + j) = Some c \<and> rd pattern j \<noteq> Some c \<and>
           badCharShift = max 1 (j - badCharTable ! nat (uchar c)) \<and>
           goodSuffixShift = goodSuffixShifts ! nat (j + 1) \<and>
           heuristic = (if badCharShift \<ge> goodSuffixShift then ''Bad Character'' else ''Good Suffix'') \<and>
           (badCharShift = goodSuffixShift \<longrightarrow> heuristic = ''Bad Character'') \<and>
           searchStep text pattern n m badCharTable goodSuffixShifts st = Some st' \<and>
           searchLoop text pattern n m badCharTable goodSuffixShifts st =
             searchLoop text pattern n m badCharTable goodSuffixShifts st' \<and>
           shift st' = shift st + max badCharShift goodSuffixShift \<and>
           printed st' = printed st @
             [AlignmentStep (step st) (shift st),
              ShiftDetails badCharShift goodSuffixShift heuristic (max badCharShift goodSuffixShift)] @
             (if shift st' \<le> n - m then [PatternAlignment (shift st')] else [])"
proof -
  note m = assms(4) and le = assms(5) and cl = assms(6) and j0 = assms(7)
  have lbct: "length badCharTable = 256"
    using precomputeBadCharacterTable_total [of pattern] assms(1) by auto
  have lgs: "int (length goodSuffixShifts) = m + 1"
    using precomputeGoodSuffixTable_length [OF assms(2)] m by simp
  from compareLoop_result [OF cl] j0 obtain a c where
    j: "j \<le> m - 1" and ra: "rd pattern j = Some a" and r1: "rd text (shift st + j) = Some c"
    and ac: "a \<noteq> c"
    by blast
  define b where "b = badCharTable ! nat (uchar c)"
  define g where "g = goodSuffixShifts ! nat (j + 1)"
  define bc where "bc = max 1 (j - b)"
  define fin where "fin = max bc g"
  have r0: "rd pattern j \<noteq> Some c"
    using ra ac by simp
  have r2: "rd badCharTable (uchar c) = Some b"
    using uchar_range [of c] lbct unfolding b_def by (simp add: rd_Some)
  have r3: "rd goodSuffixShifts (j + 1) = Some g"
    using j0 j lgs unfolding g_def by (simp add: rd_Some)
  from searchStep_mismatch [OF cl j0 r1 r2 r3 bc_def [symmetric] fin_def [symmetric],
      where n = n]
  obtain st' where
    ss: "searchStep text pattern n m badCharTable goodSuffixShifts st = Some st'"
    and sh: "shift st' = shift st + fin"
    and pr: "printed st' = printed st @
           [AlignmentStep (step st) (shift st),
            ShiftDetails bc g (if bc \<ge> g then ''Bad Character'' else ''Good Suffix'') fin] @
           (if shift st + fin \<le> n - m then [PatternAlignment (shift st + fin)] else [])"
    by blast
  have lp: "searchLoop text pattern n m badCharTable goodSuffixShifts st =
             searchLoop text pattern n m badCharTable goodSuffixShifts st'"
    using le ss by (subst searchLoop.simps) simp
  have jm: "j < m" using j by linarith
  show ?thesis
    using jm r1 r0 ss lp sh pr unfolding fin_def bc_def b_def g_def by auto
qed

theorem C4_mismatch_shift_witness:
  "\<exists>st'. searchStep ''AAAAAAB'' ''AB'' 7 2 ((replicate 256 (- 1))[65 := 0, 66 := 1]) [2, 2, 1]
       \<lparr>shift = 0, found = False, totalSkippedChars = 0, step = 1,
        matchedIndex = [], printed = []\<rparr> = Some st' \<and>
     shift st' = 1 \<and>
     printed st' = [AlignmentStep 1 0, ShiftDetails 1 1 ''Bad Character'' 1, PatternAlignment 1]"
proof -
  define T where "T = (replicate 256 (- 1 :: int))[65 := 0, 66 := 1]"
  define st where "st = \<lparr>shift = 0, found = False, totalSkippedChars = 0, step = 1,
        matchedIndex = [], printed = []\<rparr>"
  have b: "precomputeBadCharacterTable ''AB'' = Some T"
    unfolding T_def by code_simp
  have g: "precomputeGoodSuffixTable ''AB'' = Some [2, 2, 1]"
    by code_simp
  have c: "compareLoop ''AB'' ''AAAAAAB'' (shift st) (2 - 1) = Some 1"
    unfolding st_def by code_simp
  have r: "rd ''AAAAAAB'' (shift st + 1) = Some CHR ''A''"
    unfolding st_def by code_simp
  have t: "T ! nat (uchar CHR ''A'') = 0"
    unfolding T_def by code_simp
  have s: "shift st \<le> 7 - 2" "shift st = 0" "step st = 1" "printed st = []"
    unfolding st_def by simp_all
  have n: "7 = narrow (length ''AAAAAAB'')" and m: "2 = narrow (length ''AB'')"
    and j: "(0::int) \<le> 1"
    by (simp_all add: narrow_def wrap32_def)
  from C4_mismatch_shift [OF b g n m s(1) c j]
  obtain st' ch bc gsh h where
    1: "rd ''AAAAAAB'' (shift st + 1) = Some ch"
    and 2: "bc = max 1 (1 - T ! nat (uchar ch))"
    and 3: "gsh = [2, 2, 1] ! nat (1 + 1)"
    and 4: "h = (if bc \<ge> gsh then ''Bad Character'' else ''Good Suffix'')"
    and 5: "searchStep ''AAAAAAB'' ''AB'' 7 2 T [2, 2, 1] st = Some st'"
    and 6: "shift st' = shift st + max bc gsh"
    and 7: "printed st' = printed st @ [AlignmentStep (step st) (shift st),
              ShiftDetails bc gsh h (max bc gsh)] @
             (if shift st' \<le> 7 - 2 then [PatternAlignment (shift st')] else [])"
    by blast
  from 1 r have "ch = CHR ''A''" by simp
  with 2 t have bc: "bc = 1" by simp
  from 3 have gsh: "gsh = 1" by simp
  from 4 bc gsh have h: "h = ''Bad Character''" by simp
  from 6 bc gsh s have sh: "shift st' = 1" by simp
  from 7 sh bc gsh h s have "printed st' =
      [AlignmentStep 1 0, ShiftDetails 1 1 ''Bad Character'' 1, PatternAlignment 1]"
    by simp
  with 5 sh show ?thesis unfolding T_def st_def by blast
qed

text \<open>
  C5.  In the same setting, with an alignment \<open>s\<close> between \<open>0\<close> and \<open>n - m\<close>, if the
  comparison runs through the whole pattern, the iteration appends \<open>s\<close> to the recorded
  matches and advances the alignment by \<open>goodSuffixShifts[0]\<close>, which is at least \<open>1\<close>,
  and the loop goes on from the state that the iteration returns.  For a nonempty pattern
  whose length the variable \<open>m\<close> holds, the pattern occurs at \<open>s\<close> and the shift skips no
  occurrence: the pattern occurs at none of the offsets strictly between the old and the
  new alignment.  Searching \<open>AA\<close> in \<open>AAAA\<close> records the offsets \<open>0\<close>, \<open>1\<close>, \<open>2\<close>.
\<close>

theorem C5_full_match_shift:
  assumes "precomputeBadCharacterTable pattern = Some badCharTable"
    and "precomputeGoodSuffixTable pattern = Some goodSuffixShifts"
    and "n = narrow (length text)" "m = narrow (length pattern)"
    and "0 \<le> shift st" "shift st \<le> n - m"
    and "compareLoop pattern text (shift st) (m - 1) = Some j" "j < 0"
  shows "(\<exists>st'. searchStep text pattern n m badCharTable goodSuffixShifts st = Some st' \<and>
            searchLoop text pattern n m badCharTable goodSuffixShifts st =
              searchLoop text pattern n m badCharTable goodSuffixShifts st' \<and>
            matchedIndex st' = matchedIndex st @ [shift st] \<and>
            shift st' = shift st + goodSuffixShifts ! 0 \<and>
            1 \<le> goodSuffixShifts ! 0 \<and>
            (pattern \<noteq> [] \<and> int (length pattern) \<le> INT_MAX \<longrightarrow>
               occurs_at text pattern (shift st) \<and>
               (\<forall>x. shift st < x \<and> x < shift st' \<longrightarrow> \<not> occurs_at text pattern x))) \<and>
         map_option matchedIndex (searchBoyerMoore ''AAAA'' ''AA'') = Some [0, 1, 2]"
proof -
  note n = assms(3) and m = assms(4) and s0 = assms(5) and le = assms(6)
    and cl = assms(7) and j0 = assms(8)
  from precomputeGoodSuffixTable_length [OF assms(2)]
  have m0: "0 \<le> m" and mx: "m < INT_MAX" and lgs: "int (length goodSuffixShifts) = m + 1"
    and f1: "1 \<le> goodSuffixShifts ! 0"
    using m by simp_all
  have r: "rd goodSuffixShifts 0 = Some (goodSuffixShifts ! 0)"
    using lgs m0 by (simp add: rd_Some)
  from searchStep_match [OF cl j0 r, where n = n and bct = badCharTable]
  obtain st' where
    ss: "searchStep text pattern n m badCharTable goodSuffixShifts st = Some st'"
    and sh: "shift st' = shift st + goodSuffixShifts ! 0"
    and mi: "matchedIndex st' = matchedIndex st @ [shift st]"
    by blast
  have lp: "searchLoop text pattern n m badCharTable goodSuffixShifts st =
              searchLoop text pattern n m badCharTable goodSuffixShifts st'"
    using le ss by (subst searchLoop.simps) simp
  have occ: "occurs_at text pattern (shift st) \<and>
             (\<forall>x. shift st < x \<and> x < shift st' \<longrightarrow> \<not> occurs_at text pattern x)"
    if ne: "pattern \<noteq> []" and fit: "int (length pattern) \<le> INT_MAX"
  proof -
    have ml: "m = int (length pattern)"
      using m fit by (simp add: narrow_id)
    have "int (length pattern) < INT_MAX" using mx ml by simp
    from tables_ok_of_computed [OF this assms(1,2)]
    have tok: "table_ok pattern goodSuffixShifts"
      unfolding tables_ok_def by simp
    have n0: "0 \<le> n" using s0 m0 le by linarith
    have "n \<le> int (length text)"
      using narrow_le [of "length text"] n0 n by simp
    then have sm: "shift st + m \<le> int (length text)" using le by linarith
    have m1: "1 \<le> m" using ne ml by (cases pattern) simp_all
    have "\<forall>x. m - 1 < x \<and> x < m \<longrightarrow> pattern ! nat x = text ! nat (shift st + x)"
      by (intro allI impI) linarith
    from compareLoop_spec [OF ml s0 sm _ _ this] cl m1
    have suf: "\<forall>x. j < x \<and> x < m \<longrightarrow> pattern ! nat x = text ! nat (shift st + x)"
      by auto
    have o: "occurs_at text pattern (shift st)"
      unfolding occurs_at_iff [OF ne] using suf j0 s0 sm ml by simp
    have "\<forall>x. shift st < x \<and> x < shift st' \<longrightarrow> \<not> occurs_at text pattern x"
      using match_shift_safe [OF tok ne s0 o] sh by simp
    with o show ?thesis by simp
  qed
  have "map_option matchedIndex (searchBoyerMoore ''AAAA'' ''AA'') = Some [0, 1, 2]"
    by code_simp
  with ss lp mi sh f1 occ show ?thesis by blast
qed

theorem C5_full_match_shift_witness:
  "\<exists>st'. searchStep ''AAAA'' ''AA'' 4 2 ((replicate 256 (- 1))[65 := 1]) [1, 1, 2]
       \<lparr>shift = 1, found = True, totalSkippedChars = 0, step = 2,
        matchedIndex = [0], printed = []\<rparr> = Some st' \<and>
     matchedIndex st' = [0, 1] \<and> shift st' = 2 \<and> occurs_at ''AAAA'' ''AA'' 1"
proof -
  define T where "T = (replicate 256 (- 1 :: int))[65 := 1]"
  define st where "st = \<lparr>shift = 1, found = True, totalSkippedChars = 0, step = 2,
        matchedIndex = [0], printed = []\<rparr>"
  have b: "precomputeBadCharacterTable ''AA'' = Some T"
    unfolding T_def by code_simp
  have g: "precomputeGoodSuffixTable ''AA'' = Some [1, 1, 2]"
    by code_simp
  have c: "compareLoop ''AA'' ''AAAA'' (shift st) (2 - 1) = Some (- 1)"
    unfolding st_def by code_simp
  have s: "0 \<le> shift st" "shift st \<le> 4 - 2" "shift st = 1" "matchedIndex st = [0]"
    unfolding st_def by simp_all
  have n: "4 = narrow (length ''AAAA'')" and m: "2 = narrow (length ''AA'')"
    and j: "(- 1 :: int) < 0"
    by (simp_all add: narrow_def wrap32_def)
  have f: "''AA'' \<noteq> [] \<and> int (length ''AA'') \<le> INT_MAX"
    by (simp add: INT_MAX_def)
  from C5_full_match_shift [OF b g n m s(1,2) c j]
  obtain st' where
    1: "searchStep ''AAAA'' ''AA'' 4 2 T [1, 1, 2] st = Some st'"
    and 2: "matchedIndex st' = matchedIndex st @ [shift st]"
    and 3: "shift st' = shift st + [1, 1, 2] ! 0"
    and 4: "''AA'' \<noteq> [] \<and> int (length ''AA'') \<le> INT_MAX \<longrightarrow>
              occurs_at ''AAAA'' ''AA'' (shift st) \<and>
              (\<forall>x. shift st < x \<and> x < shift st' \<longrightarrow> \<not> occurs_at ''AAAA'' ''AA'' x)"
    by blast
  from 2 3 s have "matchedIndex st' = [0, 1]" "shift st' = 2" by simp_all
  moreover from 4 f s have "occurs_at ''AAAA'' ''AA'' 1" by simp
  ultimately show ?thesis using 1 unfolding T_def st_def by blast
qed

text \<open>
  C6 does not hold for every pattern.  For a pattern of \<open>2^31\<close> symbols \<^verbatim>\<open>A\<close> the stored
  length is \<open>- 2^31\<close>, the loop over the pattern is not entered and the entry of \<^verbatim>\<open>A\<close>
  stays \<open>- 1\<close>, although the symbol occurs in the pattern.
\<close>

theorem C6_counterexample:
  "precomputeBadCharacterTable (replicate 2147483648 CHR ''A'') = Some (replicate 256 (- 1)) \<and>
   replicate 256 (- 1 :: int) ! nat (uchar CHR ''A'') = - 1 \<and>
   CHR ''A'' \<in> set (replicate 2147483648 CHR ''A'') \<and>
   rightmost (replicate 2147483648 CHR ''A'') CHR ''A'' \<noteq> - 1"
proof -
  have n: "narrow (length (replicate 2147483648 CHR ''A'')) = - 2147483648"
    by (simp add: narrow_def wrap32_def)
  have l: "badCharLoop p (- 2147483648) 0 T = Some T" for p T
    by (subst badCharLoop.simps) simp
  have 1: "precomputeBadCharacterTable (replicate 2147483648 CHR ''A'') =
      Some (replicate 256 (- 1))"
    unfolding precomputeBadCharacterTable_def Let_def n
    by (simp add: newVector_def NUM_CHARS_def l)
  have 2: "replicate 256 (- 1 :: int) ! nat (uchar CHR ''A'') = - 1"
    using nat_uchar_less [of "CHR ''A''"] by simp
  have 3: "CHR ''A'' \<in> set (replicate 2147483648 CHR ''A'')"
    by simp
  then have 4: "rightmost (replicate 2147483648 CHR ''A'') CHR ''A'' \<noteq> - 1"
    unfolding rightmost_def by simp
  from 1 2 3 4 show ?thesis by (intro conjI)
qed

text \<open>
  C6, for patterns of at most \<^const>\<open>INT_MAX\<close> symbols.  For such a pattern the function
  returns a table of \<^const>\<open>NUM_CHARS\<close> entries in which the entry of every symbol is the
  greatest index at which the symbol occurs in the pattern, and \<open>- 1\<close> if it does not
  occur; for the empty pattern every entry is \<open>- 1\<close>.
\<close>

theorem C6_bad_character_table:
  assumes "int (length pattern) \<le> INT_MAX"
  shows "(\<exists>T. precomputeBadCharacterTable pattern = Some T \<and>
            int (length T) = NUM_CHARS \<and>
            (\<forall>c. T ! nat (uchar c) = rightmost pattern c)) \<and>
         precomputeBadCharacterTable [] = Some (replicate 256 (- 1))"
proof -
  obtain T where
    t: "precomputeBadCharacterTable pattern = Some T" and len: "length T = 256"
    and lb: "\<forall>c. lastBelow pattern (int (length pattern)) c (T ! nat (uchar c))"
    using precomputeBadCharacterTable_spec [OF assms] by blast
  have "T ! nat (uchar c) = rightmost pattern c" for c
    using lb lastBelow_rightmost by blast
  moreover have "badCharLoop [] 0 0 T = Some T" for T
    by (subst badCharLoop.simps) simp
  then have "precomputeBadCharacterTable [] = Some (replicate 256 (- 1))"
    unfolding precomputeBadCharacterTable_def Let_def
    by (simp add: newVector_def NUM_CHARS_def narrow_def wrap32_def)
  ultimately show ?thesis using t len unfolding NUM_CHARS_def by auto
qed

theorem C6_bad_character_table_witness:
  "\<exists>T. precomputeBadCharacterTable ''ABCA'' = Some T \<and> length T = 256 \<and>
     T ! nat (uchar CHR ''A'') = 3 \<and> T ! nat (uchar CHR ''B'') = 1 \<and>
     T ! nat (uchar CHR ''C'') = 2 \<and> T ! nat (uchar CHR ''D'') = - 1"
proof -
  have r: "rightmost ''ABCA'' CHR ''A'' = 3" "rightmost ''ABCA'' CHR ''B'' = 1"
    "rightmost ''ABCA'' CHR ''C'' = 2" "rightmost ''ABCA'' CHR ''D'' = - 1"
    by code_simp+
  have "int (length ''ABCA'') \<le> INT_MAX" by (simp add: INT_MAX_def)
  from C6_bad_character_table [OF this]
  obtain T where
    "precomputeBadCharacterTable ''ABCA'' = Some T" "int (length T) = NUM_CHARS"
    "\<forall>c. T ! nat (uchar c) = rightmost ''ABCA'' c"
    by blast
  with r show ?thesis unfolding NUM_CHARS_def by auto
qed

text \<open>
  C7 does not hold for every pattern longer than the text.  For a text of five symbols
  and a pattern of \<open>2^31\<close> symbols the stored length of the pattern is \<open>- 2^31\<close>, the test
  \<^verbatim>\<open>m == 0 || n < m\<close> fails, and the function goes on to build the tables, where the
  vector of \<open>m + 1\<close> entries cannot be created: it ends in a fault instead of the line
  for the degenerate inputs.
\<close>

theorem C7_counterexample:
  "length ''AAAAA'' < length (replicate 2147483648 CHR ''A'') \<and>
   searchBoyerMoore ''AAAAA'' (replicate 2147483648 CHR ''A'') = None"
proof -
  have n: "narrow (length (replicate 2147483648 CHR ''A'')) = - 2147483648"
    "narrow (length ''AAAAA'') = 5"
    by (simp_all add: narrow_def wrap32_def)
  have "searchBoyerMoore ''AAAAA'' (replicate 2147483648 CHR ''A'') = None"
    by (rule searchBoyerMoore_none) (simp_all only: n, simp_all)
  then show ?thesis by simp
qed

text \<open>
  C7, for patterns of at most \<^const>\<open>INT_MAX\<close> symbols.  If the pattern is empty, or is
  longer than the text and has at most \<^const>\<open>INT_MAX\<close> symbols, the function returns
  without a fault, having printed only the line that says so: no alignment was tried and
  no match is recorded.
\<close>

theorem C7_degenerate_input:
  assumes "length pattern = 0 \<or>
           (length text < length pattern \<and> int (length pattern) \<le> INT_MAX)"
  shows "\<exists>st. searchBoyerMoore text pattern = Some st \<and>
           matchedIndex st = [] \<and> printed st = [EmptyOrLonger] \<and>
           alignments (printed st) = []"
proof -
  have "narrow (length pattern) = 0 \<or> narrow (length text) < narrow (length pattern)"
    using assms
  proof
    assume "length pattern = 0"
    then show ?thesis by (simp add: narrow_def wrap32_def)
  next
    assume a: "length text < length pattern \<and> int (length pattern) \<le> INT_MAX"
    then have "int (length text) \<le> INT_MAX" by linarith
    with a show ?thesis by (simp add: narrow_id)
  qed
  from searchBoyerMoore_degenerate [OF this] show ?thesis
    by (simp add: alignments_def)
qed

theorem C7_degenerate_input_witness:
  "\<exists>st. searchBoyerMoore ''AB'' ''ABC'' = Some st \<and>
     matchedIndex st = [] \<and> printed st = [EmptyOrLonger]"
proof -
  have "length ''ABC'' = 0 \<or>
        (length ''AB'' < length ''ABC'' \<and> int (length ''ABC'') \<le> INT_MAX)"
    by (simp add: INT_MAX_def)
  from C7_degenerate_input [OF this] show ?thesis by auto
qed

text \<open>
  C8 does not hold for every nonempty pattern no longer than the text.  For a pattern and
  a text of \<open>2^32 - 1\<close> symbols each the stored lengths are \<open>- 1\<close>, the function passes
  the test for the degenerate inputs, \<^verbatim>\<open>borderPos\<close> is created with \<open>m + 1 = 0\<close> entries
  and the assignment \<^verbatim>\<open>borderPos[i] = j\<close> with \<open>i = - 1\<close> is outside of it.  For a pattern
  and a text of \<open>2^31 - 1\<close> symbols each \<^verbatim>\<open>m + 1\<close> leaves the range of \<^verbatim>\<open>int\<close> and
  the vectors of \<open>m + 1\<close> entries are not created at all.
\<close>

theorem C8_counterexample:
  "replicate 4294967295 CHR ''A'' \<noteq> [] \<and>
   length (replicate 4294967295 CHR ''A'') \<le> length (replicate 4294967295 CHR ''A'') \<and>
   narrow (length (replicate 4294967295 CHR ''A'')) = - 1 \<and>
   newVector (wrap32 (- 1 + 1)) (0 :: int) = Some [] \<and>
   wr ([] :: int list) (- 1) (wrap32 (- 1 + 1)) = None \<and>
   precomputeGoodSuffixTable_writes (replicate 4294967295 CHR ''A'') = None \<and>
   searchBoyerMoore (replicate 4294967295 CHR ''A'') (replicate 4294967295 CHR ''A'') = None \<and>
   narrow (length (replicate 2147483647 CHR ''C'')) = INT_MAX \<and>
   newVector (wrap32 (INT_MAX + 1)) (0 :: int) = None \<and>
   precomputeGoodSuffixTable_writes (replicate 2147483647 CHR ''C'') = None \<and>
   searchBoyerMoore (replicate 2147483647 CHR ''C'') (replicate 2147483647 CHR ''C'') = None"
proof -
  have n: "narrow (length (replicate 4294967295 CHR ''A'')) = - 1"
    by (simp add: narrow_def wrap32_def)
  have 1: "newVector (wrap32 (- 1 + 1)) (0 :: int) = Some []"
    by (simp add: newVector_def wrap32_def)
  have 2: "wr ([] :: int list) (- 1) (wrap32 (- 1 + 1)) = None"
    by (simp add: wr_def)
  have 3: "precomputeGoodSuffixTable_writes (replicate 4294967295 CHR ''A'') = None"
    by (rule precomputeGoodSuffixTable_writes_none [OF refl]) (simp only: n, simp)
  have 4: "searchBoyerMoore (replicate 4294967295 CHR ''A'') (replicate 4294967295 CHR ''A'') =
      None"
    by (rule searchBoyerMoore_none) (simp_all only: n, simp_all)
  have k: "narrow (length (replicate 2147483647 CHR ''C'')) = INT_MAX"
    by (simp add: narrow_def wrap32_def INT_MAX_def)
  have 5: "newVector (wrap32 (INT_MAX + 1)) (0 :: int) = None"
    by (simp add: newVector_def wrap32_def INT_MAX_def)
  have 6: "precomputeGoodSuffixTable_writes (replicate 2147483647 CHR ''C'') = None"
    by (rule precomputeGoodSuffixTable_writes_none [OF refl]) (simp only: k, simp)
  have 7: "searchBoyerMoore (replicate 2147483647 CHR ''C'') (replicate 2147483647 CHR ''C'') =
      None"
    by (rule searchBoyerMoore_none) (simp_all only: k, simp_all add: INT_MAX_def)
  from n 1 2 3 4 k 5 6 7 show ?thesis by simp
qed

text \<open>
  C8, for patterns shorter than \<^const>\<open>INT_MAX\<close>.  For every text and every nonempty
  pattern of fewer than \<^const>\<open>INT_MAX\<close> symbols that is no longer than the text, the
  search and both preprocessing functions return a result.  Since every subscript of the
  model is a checked read \<^const>\<open>rd\<close> or a checked write \<^const>\<open>wr\<close>, which have a
  result only for an index from \<open>0\<close> to the length of the container minus one, and a write
  keeps the length, every index used on the pattern is in \<open>[0, m - 1]\<close>, on the text in
  \<open>[0, n - 1]\<close>, on \<^verbatim>\<open>goodSuffixShifts\<close> and \<^verbatim>\<open>borderPos\<close> (both of length \<open>m + 1\<close>) in
  \<open>[0, m]\<close>, and on \<^verbatim>\<open>badCharTable\<close> in \<open>[0, 255]\<close>.
\<close>

theorem C8_subscripts_in_bounds:
  assumes "pattern \<noteq> []" "length pattern \<le> length text"
    and "int (length pattern) < INT_MAX"
  shows "(\<exists>st. searchBoyerMoore text pattern = Some st) \<and>
         (\<exists>goodSuffixShifts ws.
            precomputeGoodSuffixTable_writes pattern = Some (goodSuffixShifts, ws) \<and>
            length goodSuffixShifts = length pattern + 1) \<and>
         (\<exists>badCharTable.
            precomputeBadCharacterTable pattern = Some badCharTable \<and>
            int (length badCharTable) = NUM_CHARS) \<and>
         (\<forall>(xs :: int list) i. rd xs i \<noteq> None \<longleftrightarrow> 0 \<le> i \<and> i \<le> int (length xs) - 1) \<and>
         (\<forall>(xs :: string) i. rd xs i \<noteq> None \<longleftrightarrow> 0 \<le> i \<and> i \<le> int (length xs) - 1) \<and>
         (\<forall>(xs :: int list) i v. wr xs i v \<noteq> None \<longleftrightarrow> 0 \<le> i \<and> i \<le> int (length xs) - 1) \<and>
         (\<forall>(xs :: int list) i v ys. wr xs i v = Some ys \<longrightarrow> length ys = length xs)"
proof -
  from searchBoyerMoore_returns [OF assms]
  have 1: "\<exists>st. searchBoyerMoore text pattern = Some st" by blast
  obtain gs ws where
    g: "precomputeGoodSuffixTable_writes pattern = Some (gs, ws)" and t: "table_ok pattern gs"
    using precomputeGoodSuffixTable_writes_spec [OF assms(3)] by blast
  have "length gs = length pattern + 1"
    using t unfolding table_ok_def by linarith
  with g have 2: "\<exists>goodSuffixShifts ws.
            precomputeGoodSuffixTable_writes pattern = Some (goodSuffixShifts, ws) \<and>
            length goodSuffixShifts = length pattern + 1" by blast
  have 3: "\<exists>badCharTable.
            precomputeBadCharacterTable pattern = Some badCharTable \<and>
            int (length badCharTable) = NUM_CHARS"
    using precomputeBadCharacterTable_total [of pattern] unfolding NUM_CHARS_def by auto
  have 4: "rd xs i \<noteq> None \<longleftrightarrow> 0 \<le> i \<and> i \<le> int (length xs) - 1" for xs :: "'a list" and i
    unfolding rd_def by auto
  have 5: "wr xs i v \<noteq> None \<longleftrightarrow> 0 \<le> i \<and> i \<le> int (length xs) - 1"
    for xs :: "'a list" and i v
    unfolding wr_def by auto
  have 6: "wr xs i v = Some ys \<longrightarrow> length ys = length xs" for xs ys :: "'a list" and i v
    unfolding wr_def by auto
  show ?thesis
    by (intro conjI allI) (rule 1 2 3 4 5 6)+
qed

theorem C8_subscripts_in_bounds_witness:
  "(\<exists>st. searchBoyerMoore ''ABAABAB'' ''ABAB'' = Some st) \<and>
   precomputeGoodSuffixTable ''ABAB'' = Some [2, 2, 2, 4, 1] \<and>
   rd [2, 2, 2, 4, 1 :: int] 4 = Some 1 \<and>
   rd [2, 2, 2, 4, 1 :: int] 5 = None \<and> rd ''ABAB'' (- 1) = None"
proof -
  have "precomputeGoodSuffixTable ''ABAB'' = Some [2, 2, 2, 4, 1]"
    "rd [2, 2, 2, 4, 1 :: int] 4 = Some 1"
    "rd [2, 2, 2, 4, 1 :: int] 5 = None" "rd ''ABAB'' (- 1) = None"
    by code_simp+
  moreover have "''ABAB'' \<noteq> []" "length ''ABAB'' \<le> length ''ABAABAB''"
    "int (length ''ABAB'') < INT_MAX"
    by (simp_all add: INT_MAX_def)
  note C8_subscripts_in_bounds [OF this, THEN conjunct1]
  ultimately show ?thesis by (intro conjI)
qed

text \<open>
  C9.  Whenever the function returns, in the history of the assignments that the two
  passes make to \<^verbatim>\<open>goodSuffixShifts\<close> no slot appears twice, every slot from \<open>0\<close> to the
  stored length \<open>m\<close> appears, and the value assigned is not zero and is the value the slot
  holds in the returned table.  The function returns exactly for the patterns whose
  stored length \<open>m\<close> is not negative and below \<^const>\<open>INT_MAX\<close>, so that \<^verbatim>\<open>m + 1\<close> does
  not leave the range of \<^verbatim>\<open>int\<close>.  The guarded assignment that both passes use leaves a
  slot that is not zero as it is.
\<close>

theorem C9_slots_written_once:
  "(\<forall>goodSuffixShifts ws.
      precomputeGoodSuffixTable_writes pattern = Some (goodSuffixShifts, ws) \<longrightarrow>
      distinct (map fst ws) \<and>
      set (map fst ws) = {0..narrow (length pattern)} \<and>
      (\<forall>(k, v) \<in> set ws. v \<noteq> 0 \<and> goodSuffixShifts ! nat k = v)) \<and>
   (precomputeGoodSuffixTable_writes pattern \<noteq> None \<longleftrightarrow>
      0 \<le> narrow (length pattern) \<and> narrow (length pattern) < INT_MAX) \<and>
   (\<forall>gs ws k v. 0 \<le> k \<and> k < int (length gs) \<and> gs ! nat k \<noteq> 0 \<longrightarrow>
      setIfZero gs ws k v = Some (gs, ws))"
proof -
  define m where "m = narrow (length pattern)"
  have tot: "precomputeGoodSuffixTable_writes pattern \<noteq> None \<longleftrightarrow> 0 \<le> m \<and> m < INT_MAX"
  proof
    assume "precomputeGoodSuffixTable_writes pattern \<noteq> None"
    with precomputeGoodSuffixTable_writes_none [OF m_def] show "0 \<le> m \<and> m < INT_MAX"
      by force
  next
    assume "0 \<le> m \<and> m < INT_MAX"
    with precomputeGoodSuffixTable_writes_returns [OF m_def] show
      "precomputeGoodSuffixTable_writes pattern \<noteq> None"
      by force
  qed
  have once: "distinct (map fst ws) \<and> set (map fst ws) = {0..m} \<and>
      (\<forall>(k, v) \<in> set ws. v \<noteq> 0 \<and> gs ! nat k = v)"
    if run: "precomputeGoodSuffixTable_writes pattern = Some (gs, ws)" for gs ws
  proof -
    from run tot have r: "0 \<le> m" "m < INT_MAX" by simp_all
    from precomputeGoodSuffixTable_writes_returns [OF m_def r] run
    have len: "int (length gs) = m + 1"
      and pos: "\<forall>k. 0 \<le> k \<and> k \<le> m \<longrightarrow> 1 \<le> gs ! nat k"
      and li: "logInv gs ws"
      by simp_all
    have d: "distinct (map fst ws)"
      and a: "\<And>k v. (k, v) \<in> set ws \<Longrightarrow>
          0 \<le> k \<and> k < int (length gs) \<and> gs ! nat k = v \<and> v \<noteq> 0"
      and b: "\<And>k. 0 \<le> k \<and> k < int (length gs) \<and> gs ! nat k \<noteq> 0 \<Longrightarrow> k \<in> fst ` set ws"
      using li unfolding logInv_def by blast+
    have "set (map fst ws) = {0..m}"
    proof (intro set_eqI iffI)
      fix k assume "k \<in> set (map fst ws)"
      then obtain v where "(k, v) \<in> set ws" by auto
      from a [OF this] len show "k \<in> {0..m}" by simp
    next
      fix k assume k: "k \<in> {0..m}"
      then have "1 \<le> gs ! nat k" using pos by simp
      with k len have "0 \<le> k \<and> k < int (length gs) \<and> gs ! nat k \<noteq> 0" by simp
      from b [OF this] show "k \<in> set (map fst ws)" by simp
    qed
    moreover have "\<forall>(k, v) \<in> set ws. v \<noteq> 0 \<and> gs ! nat k = v"
      using a by auto
    ultimately show ?thesis using d by simp
  qed
  have "\<forall>gs ws k v. 0 \<le> k \<and> k < int (length gs) \<and> gs ! nat k \<noteq> 0 \<longrightarrow>
      setIfZero gs ws k v = Some (gs, ws)"
    using setIfZero_eq by simp
  with once tot show ?thesis unfolding m_def by blast
qed

theorem C9_slots_written_once_witness:
  "precomputeGoodSuffixTable_writes ''ABCBAB'' =
     Some ([4, 4, 4, 4, 4, 2, 1], [(6, 1), (5, 2), (0, 4), (1, 4), (2, 4), (3, 4), (4, 4)]) \<and>
   distinct (map fst [(6, 1), (5, 2), (0, 4), (1, 4), (2, 4), (3, 4), (4, 4 :: int) :: int \<times> int]) \<and>
   set (map fst [(6, 1), (5, 2), (0, 4), (1, 4), (2, 4), (3, 4), (4, 4 :: int) :: int \<times> int]) =
     {0..narrow (length ''ABCBAB'')}"
proof -
  have r: "precomputeGoodSuffixTable_writes ''ABCBAB'' =
     Some ([4, 4, 4, 4, 4, 2, 1], [(6, 1), (5, 2), (0, 4), (1, 4), (2, 4), (3, 4), (4, 4)])"
    by code_simp
  from C9_slots_written_once [of "''ABCBAB''", THEN conjunct1, rule_format, OF r]
  have "distinct (map fst [(6, 1), (5, 2), (0, 4), (1, 4), (2, 4), (3, 4), (4, 4 :: int) :: int \<times> int])"
    "set (map fst [(6, 1), (5, 2), (0, 4), (1, 4), (2, 4), (3, 4), (4, 4 :: int) :: int \<times> int]) =
       {0..narrow (length ''ABCBAB'')}"
    by blast+
  with r show ?thesis by (intro conjI)
qed

text \<open>
  C10.  For the empty pattern the table has the single entry \<open>1\<close>.
\<close>

theorem C10_empty_pattern_table:
  "precomputeGoodSuffixTable [] = Some [1]"
  by code_simp

end
